theory Spec2Isabelle
  imports Complex_Main "HOL-Library.List_Lexorder" "HOL-Library.Char_ord" "HOL-Library.Log_Nat"
begin

section \<open>Conventions of the embedding\<close>

text \<open>
  The development embeds the ranking helpers of \<^verbatim>\<open>ranker.py\<close>, the scoring
  expressions of the job loop of \<^verbatim>\<open>streamlit_app.py\<close> and the two skill extractors
  (\<^verbatim>\<open>enhanced_extractor.py\<close>, \<^verbatim>\<open>lambda_handler.py\<close>).

  \<^item> A Python \<^verbatim>\<open>float\<close> and a \<^verbatim>\<open>numpy.float64\<close> are binary64 numbers: a finite number,
    an infinity or NaN. Every arithmetic operation rounds its exact result to the nearest
    such number, ties to even, and overflows to an infinity. The two zeros are one value:
    the code embedded here compares numbers and never divides by a zero.
  \<^item> The sub-scores of the job loop are quotients of small integers and constants; they are
    given as \<^typ>\<open>real\<close> numbers.
  \<^item> A Python \<^verbatim>\<open>str\<close> is a \<^typ>\<open>string\<close>: a list of code points below 256. The
    character classes of the \<^verbatim>\<open>re\<close> module and \<^verbatim>\<open>str.lower\<close> are written out for
    these code points.
  \<^item> A raised exception is the \<^verbatim>\<open>Inl\<close> branch of a sum type.
  \<^item> Strings are ordered as Python orders them: lexicographically by code point.
\<close>

datatype error = ValueError

section \<open>Binary64 arithmetic\<close>

text \<open>
  \<open>rnd x\<close> is the binary64 number nearest to the real number \<open>x\<close>. With \<open>e\<close> the exponent
  of \<open>x\<close> (\<open>2\<^sup>e \<le> |x| < 2\<^sup>e\<^sup>+\<^sup>1\<close>), and \<open>-1022\<close> in its place for a smaller one, the binary64
  numbers around \<open>x\<close> are the multiples of \<open>2\<^sup>e\<^sup>-\<^sup>5\<^sup>2\<close>; \<open>x\<close> goes to the nearest multiple, to
  the even one when it is half way between two, and to an infinity when that multiple has
  magnitude \<open>2\<^sup>1\<^sup>0\<^sup>2\<^sup>4\<close> or more.
\<close>

datatype double = Num real | PInf | NInf | NaN

definition ilog2 :: "real \<Rightarrow> int" where
  \<comment> \<open>the exponent of a positive number\<close>
  "ilog2 x = (if 1 \<le> x then bitlen \<lfloor>x\<rfloor> - 1 else - bitlen (\<lceil>1 / x\<rceil> - 1))"

definition round_even :: "real \<Rightarrow> int" where
  "round_even x =
     (let n = \<lfloor>x\<rfloor>; r = x - of_int n in
      if r < 1 / 2 then n else if 1 / 2 < r then n + 1 else if even n then n else n + 1)"

definition rnd :: "real \<Rightarrow> double" where
  "rnd x =
     (if x = 0 then Num 0
      else
        let q = max (ilog2 \<bar>x\<bar>) (- 1022) - 52;
            y = of_int (round_even (x / 2 powi q)) * 2 powi q
        in if 2 ^ 1024 \<le> \<bar>y\<bar> then (if 0 < x then PInf else NInf) else Num y)"

text \<open>
  The operations of IEEE 754: NaN propagates, \<open>\<infinity> - \<infinity>\<close>, \<open>0 \<sqdot> \<infinity>\<close>, \<open>\<infinity> / \<infinity>\<close> and \<open>0 / 0\<close>
  are NaN, every comparison with NaN is false. Division by zero is that of \<^verbatim>\<open>numpy\<close>
  scalars, which returns an infinity or NaN with a warning.
\<close>

definition sign_of :: "double \<Rightarrow> real" where
  "sign_of a = (case a of Num x \<Rightarrow> sgn x | PInf \<Rightarrow> 1 | NInf \<Rightarrow> - 1 | NaN \<Rightarrow> 0)"

definition inf_of :: "real \<Rightarrow> double" where
  "inf_of s = (if s = 0 then NaN else if 0 < s then PInf else NInf)"

fun fadd :: "double \<Rightarrow> double \<Rightarrow> double" where
  "fadd (Num x) (Num y) = rnd (x + y)"
| "fadd NaN b = NaN"
| "fadd a NaN = NaN"
| "fadd PInf NInf = NaN"
| "fadd NInf PInf = NaN"
| "fadd PInf b = PInf"
| "fadd NInf b = NInf"
| "fadd a PInf = PInf"
| "fadd a NInf = NInf"

fun fmul :: "double \<Rightarrow> double \<Rightarrow> double" where
  "fmul (Num x) (Num y) = rnd (x * y)"
| "fmul NaN b = NaN"
| "fmul a NaN = NaN"
| "fmul a b = inf_of (sign_of a * sign_of b)"

fun fdiv :: "double \<Rightarrow> double \<Rightarrow> double" where
  "fdiv (Num x) (Num y) = (if y = 0 then inf_of x else rnd (x / y))"
| "fdiv NaN b = NaN"
| "fdiv a NaN = NaN"
| "fdiv (Num x) b = Num 0"
| "fdiv a (Num y) = inf_of (sign_of a * (if y < 0 then - 1 else 1))"
| "fdiv a b = NaN"

fun fsqrt :: "double \<Rightarrow> double" where
  "fsqrt (Num x) = (if x < 0 then NaN else rnd (sqrt x))"
| "fsqrt PInf = PInf"
| "fsqrt NInf = NaN"
| "fsqrt NaN = NaN"

fun flt :: "double \<Rightarrow> double \<Rightarrow> bool" where
  "flt (Num x) (Num y) \<longleftrightarrow> x < y"
| "flt NaN b \<longleftrightarrow> False"
| "flt a NaN \<longleftrightarrow> False"
| "flt a PInf \<longleftrightarrow> a \<noteq> PInf"
| "flt NInf b \<longleftrightarrow> b \<noteq> NInf"
| "flt a b \<longleftrightarrow> False"

definition feq :: "double \<Rightarrow> double \<Rightarrow> bool" where
  "feq a b \<longleftrightarrow> a \<noteq> NaN \<and> a = b"


section \<open>\<^verbatim>\<open>ranker.py\<close>\<close>

subsection \<open>\<^verbatim>\<open>cos_sim_safe\<close>\<close>

text \<open>
  The arguments are taken after \<^verbatim>\<open>np.array(_, dtype=float).flatten()\<close>, as one-dimensional
  sequences of binary64 numbers. \<^verbatim>\<open>np.dot\<close> of two one-dimensional arrays raises
  \<^verbatim>\<open>ValueError\<close> when their lengths differ and otherwise adds the products, here from left
  to right. \<^verbatim>\<open>np.linalg.norm\<close> of a one-dimensional array is \<^verbatim>\<open>sqrt(x.dot(x))\<close>. \<open>huge\<close> is
  the number that the literal \<^verbatim>\<open>1e200\<close> denotes.
\<close>

definition np_dot :: "double list \<Rightarrow> double list \<Rightarrow> error + double" where
  "np_dot a b =
     (if length a \<noteq> length b then Inl ValueError
      else Inr (foldl fadd (Num 0) (map (\<lambda>(x, y). fmul x y) (zip a b))))"

definition linalg_norm :: "double list \<Rightarrow> double" where
  "linalg_norm a = fsqrt (foldl fadd (Num 0) (map (\<lambda>x. fmul x x) a))"

definition cos_sim_safe :: "double list \<Rightarrow> double list \<Rightarrow> error + double" where
  "cos_sim_safe a b =
     (let denom = fmul (linalg_norm a) (linalg_norm b) in
      if feq denom (Num 0) then Inr (Num 0)
      else (case np_dot a b of Inl e \<Rightarrow> Inl e | Inr d \<Rightarrow> Inr (fdiv d denom)))"

definition huge :: real where
  "huge = 2941796710330669 * 2 ^ 613"

subsection \<open>\<^verbatim>\<open>compute_final_score\<close>\<close>

definition default_weights :: "real list" where
  "default_weights = [55 / 100, 25 / 100, 10 / 100, 10 / 100]"

definition clamp01 :: "real \<Rightarrow> real" where
  \<comment> \<open>\<^verbatim>\<open>max(0.0, min(1.0, float(x)))\<close>\<close>
  "clamp01 x = max 0 (min 1 x)"

definition compute_final_score ::
  "real \<Rightarrow> real \<Rightarrow> real \<Rightarrow> real \<Rightarrow> real list option \<Rightarrow> error + real" where
  "compute_final_score semantic keyword recency popularity weights =
     (let weights = (case weights of None \<Rightarrow> default_weights | Some ws \<Rightarrow> ws) in
      if length weights \<noteq> 4 then Inl ValueError
      else
        let total = sum_list weights;
            weights = (if total > 0 then map (\<lambda>w. w / total) weights else weights);
            semantic = clamp01 semantic;
            keyword = clamp01 keyword;
            recency = clamp01 recency;
            popularity = clamp01 popularity
        in Inr (weights ! 0 * semantic + weights ! 1 * keyword
                + weights ! 2 * recency + weights ! 3 * popularity))"

text \<open>
  The definition above reads every operation as exact, over the reals; it has the control
  flow of the function: which inputs raise and which branch the guard on the sum takes.
  \<open>compute_final_score_f64\<close> is the function as it computes, in binary64. \<^verbatim>\<open>sum\<close> adds
  the weights to \<^verbatim>\<open>0\<close> from left to right, each addition rounded (later versions of the
  interpreter compensate the rounding error of the total; the examples below have the same
  total). \<^verbatim>\<open>min\<close> and \<^verbatim>\<open>max\<close> return their first argument unless the second is smaller or
  larger, so a NaN sub-score is clamped to \<open>1.0\<close>. A decimal literal is the nearest
  binary64 number.
\<close>

definition py_min :: "double \<Rightarrow> double \<Rightarrow> double" where
  "py_min a b = (if flt b a then b else a)"

definition py_max :: "double \<Rightarrow> double \<Rightarrow> double" where
  "py_max a b = (if flt a b then b else a)"

definition default_weights_f64 :: "double list" where
  "default_weights_f64 = [rnd (55 / 100), rnd (25 / 100), rnd (10 / 100), rnd (10 / 100)]"

definition clamp01_f64 :: "double \<Rightarrow> double" where
  "clamp01_f64 x = py_max (Num 0) (py_min (Num 1) x)"

definition py_sum :: "double list \<Rightarrow> double" where
  "py_sum xs = foldl fadd (Num 0) xs"

definition compute_final_score_f64 ::
  "double \<Rightarrow> double \<Rightarrow> double \<Rightarrow> double \<Rightarrow> double list option \<Rightarrow> error + double" where
  "compute_final_score_f64 semantic keyword recency popularity weights =
     (let weights = (case weights of None \<Rightarrow> default_weights_f64 | Some ws \<Rightarrow> ws) in
      if length weights \<noteq> 4 then Inl ValueError
      else
        let total = py_sum weights;
            weights = (if flt (Num 0) total then map (\<lambda>w. fdiv w total) weights else weights);
            semantic = clamp01_f64 semantic;
            keyword = clamp01_f64 keyword;
            recency = clamp01_f64 recency;
            popularity = clamp01_f64 popularity
        in Inr (fadd (fadd (fadd (fmul (weights ! 0) semantic) (fmul (weights ! 1) keyword))
                  (fmul (weights ! 2) recency)) (fmul (weights ! 3) popularity)))"

section \<open>The job loop of \<^verbatim>\<open>streamlit_app.py\<close>\<close>

subsection \<open>Keyword overlap and missing skills\<close>

text \<open>
  \<^verbatim>\<open>resume_skills\<close> and \<^verbatim>\<open>job_skills\<close> are the lists stored with the resume and the job.
  The denominator of the keyword score is the length of the stored list, not the size of
  the set built from it.
\<close>

definition keyword :: "string list \<Rightarrow> string list \<Rightarrow> real" where
  \<comment> \<open>\<^verbatim>\<open>len(set(resume_skills) & set(job_skills)) / max(1, len(resume_skills))\<close>\<close>
  "keyword resume_skills job_skills =
     real (card (set resume_skills \<inter> set job_skills))
       / real (max 1 (length resume_skills))"

definition missing :: "string list \<Rightarrow> string list \<Rightarrow> string list" where
  \<comment> \<open>\<^verbatim>\<open>sorted(set(job_skills) - set(resume_skills))\<close>\<close>
  "missing resume_skills job_skills =
     sorted_list_of_set (set job_skills - set resume_skills)"

subsection \<open>Recency\<close>

text \<open>
  A \<^verbatim>\<open>datetime\<close> is an instant in microseconds together with the flag that tells whether
  it carries a time zone. \<^verbatim>\<open>utc_now()\<close> is aware; subtracting a naive \<^verbatim>\<open>datetime\<close> from it
  raises \<^verbatim>\<open>TypeError\<close>, which the bare \<^verbatim>\<open>except\<close> of the loop turns into the neutral value.
  \<^verbatim>\<open>dateutil.parser.parse\<close> is a parameter; \<^verbatim>\<open>None\<close> is its exception.
\<close>

record datetime =
  aware :: bool
  micros :: int

datatype posted = NoDate | DateStr string | DateTime datetime

definition timedelta_days :: "int \<Rightarrow> int \<Rightarrow> int" where
  \<comment> \<open>\<^verbatim>\<open>(now - posted).days\<close>: whole days, rounded towards minus infinity\<close>
  "timedelta_days now t = (now - t) div 86400000000"

definition band :: "int \<Rightarrow> real" where
  \<comment> \<open>\<^verbatim>\<open>1.0 if days_old <= 1 else 0.8 if days_old <= 7 else 0.6 if days_old <= 30 else 0.3\<close>\<close>
  "band days_old =
     (if days_old \<le> 1 then 1 else if days_old \<le> 7 then 8 / 10
      else if days_old \<le> 30 then 6 / 10 else 3 / 10)"

definition age_score :: "int \<Rightarrow> datetime \<Rightarrow> real" where
  "age_score now d = (if aware d then band (timedelta_days now (micros d)) else 5 / 10)"

definition recency :: "(string \<Rightarrow> datetime option) \<Rightarrow> int \<Rightarrow> posted \<Rightarrow> real" where
  "recency parse now posted_date =
     (case posted_date of
        NoDate \<Rightarrow> 5 / 10
      | DateStr s \<Rightarrow>
          (if s = [] then 5 / 10
           else (case parse s of None \<Rightarrow> 5 / 10 | Some d \<Rightarrow> age_score now d))
      | DateTime d \<Rightarrow> age_score now d)"

section \<open>The skill extractors\<close>

subsection \<open>Characters\<close>

text \<open>
  The classes \<^verbatim>\<open>\w\<close> and \<^verbatim>\<open>\s\<close> of a \<^verbatim>\<open>str\<close> pattern and \<^verbatim>\<open>str.lower\<close>, on the code
  points below 256. \<^verbatim>\<open>str.split()\<close> splits at the same characters as \<^verbatim>\<open>\s\<close>.
\<close>

definition is_word :: "char \<Rightarrow> bool" where
  "is_word c =
     (let n = (of_char c :: nat) in
      (48 \<le> n \<and> n \<le> 57) \<or> (65 \<le> n \<and> n \<le> 90) \<or> n = 95 \<or> (97 \<le> n \<and> n \<le> 122)
      \<or> n = 170 \<or> n = 178 \<or> n = 179 \<or> n = 181 \<or> n = 185 \<or> n = 186
      \<or> (188 \<le> n \<and> n \<le> 190) \<or> (192 \<le> n \<and> n \<le> 214) \<or> (216 \<le> n \<and> n \<le> 246)
      \<or> 248 \<le> n)"

definition is_space :: "char \<Rightarrow> bool" where
  "is_space c =
     (let n = (of_char c :: nat) in
      (9 \<le> n \<and> n \<le> 13) \<or> (28 \<le> n \<and> n \<le> 32) \<or> n = 133 \<or> n = 160)"

definition lower_char :: "char \<Rightarrow> char" where
  "lower_char c =
     (let n = (of_char c :: nat) in
      if (65 \<le> n \<and> n \<le> 90) \<or> (192 \<le> n \<and> n \<le> 214) \<or> (216 \<le> n \<and> n \<le> 222)
      then char_of (n + 32) else c)"

definition replace_char :: "char \<Rightarrow> char \<Rightarrow> string \<Rightarrow> string" where
  \<comment> \<open>\<^verbatim>\<open>text.replace(old, new)\<close> for one-character \<^verbatim>\<open>old\<close> and \<^verbatim>\<open>new\<close>\<close>
  "replace_char old new text = map (\<lambda>c. if c = old then new else c) text"

definition normalize_text :: "string \<Rightarrow> string" where
  "normalize_text text =
     (let text = map lower_char text;
          text = replace_char (CHR ''_'') (CHR '' '') (replace_char (CHR ''-'') (CHR '' '') text);
          text = replace_char (CHR ''.'') (CHR ''.'') text
      in text)"

fun split_acc :: "string \<Rightarrow> string \<Rightarrow> string list" where
  "split_acc cur [] = (if cur = [] then [] else [rev cur])"
| "split_acc cur (c # cs) =
     (if is_space c then (if cur = [] then split_acc [] cs else rev cur # split_acc [] cs)
      else split_acc (c # cur) cs)"

definition split_ws :: "string \<Rightarrow> string list" where
  \<comment> \<open>\<^verbatim>\<open>skill.split()\<close>: the maximal runs of characters that are not whitespace\<close>
  "split_ws s = split_acc [] s"

fun join :: "'a list \<Rightarrow> 'a list list \<Rightarrow> 'a list" where
  "join sep [] = []"
| "join sep [x] = x"
| "join sep (x # y # ys) = x @ sep @ join sep (y # ys)"

subsection \<open>The patterns of the \<^verbatim>\<open>re\<close> module that the extractors build\<close>

text \<open>
  A pattern is a sequence of items: a literal character (what \<^verbatim>\<open>re.escape\<close> produces for
  each character of its argument), \<^verbatim>\<open>\b\<close>, \<^verbatim>\<open>\s+\<close>, \<^verbatim>\<open>(?<!\w)\<close> and \<^verbatim>\<open>(?!\w)\<close>.
  \<open>match_here\<close> is the backtracking matcher at one position: it is given the character
  before the position (if any) and the text from the position on, and returns the first
  match in the order the engine tries them (\<^verbatim>\<open>\s+\<close> is greedy), as the last character
  consumed and the rest of the text.
\<close>

datatype rx = Lit char | WordBoundary | Spaces | NotAfterWord | NotBeforeWord

fun word_before :: "char option \<Rightarrow> bool" where
  "word_before None = False"
| "word_before (Some c) = is_word c"

fun word_ahead :: "string \<Rightarrow> bool" where
  "word_ahead [] = False"
| "word_ahead (c # cs) = is_word c"

fun match_here :: "rx list \<Rightarrow> char option \<Rightarrow> string \<Rightarrow> (char option \<times> string) option" where
  "match_here [] prev s = Some (prev, s)"
| "match_here (Lit c # rs) prev [] = None"
| "match_here (Lit c # rs) prev (x # xs) = (if x = c then match_here rs (Some x) xs else None)"
| "match_here (WordBoundary # rs) prev s =
     (if word_before prev \<noteq> word_ahead s then match_here rs prev s else None)"
| "match_here (NotAfterWord # rs) prev s =
     (if word_before prev then None else match_here rs prev s)"
| "match_here (NotBeforeWord # rs) prev s =
     (if word_ahead s then None else match_here rs prev s)"
| "match_here (Spaces # rs) prev [] = None"
| "match_here (Spaces # rs) prev (x # xs) =
     (if is_space x then
        (case match_here (Spaces # rs) (Some x) xs of
           Some m \<Rightarrow> Some m
         | None \<Rightarrow> match_here rs (Some x) xs)
      else None)"

fun search_from :: "rx list \<Rightarrow> char option \<Rightarrow> string \<Rightarrow> bool" where
  "search_from p prev [] = (match_here p prev [] \<noteq> None)"
| "search_from p prev (x # xs) = (match_here p prev (x # xs) \<noteq> None \<or> search_from p (Some x) xs)"

definition re_search :: "rx list \<Rightarrow> string \<Rightarrow> bool" where
  \<comment> \<open>whether \<^verbatim>\<open>re.search(pattern, text)\<close> finds a match\<close>
  "re_search p text = search_from p None text"

text \<open>
  \<^verbatim>\<open>re.sub\<close> scans from the left; at a match it emits the replacement and goes on after the
  match, otherwise it copies one character. An empty match emits the replacement and
  copies the next character. The replacement strings of the extractors contain no
  backslash, so they are inserted as they are.
\<close>

function sub_from :: "rx list \<Rightarrow> string \<Rightarrow> char option \<Rightarrow> string \<Rightarrow> string" where
  "sub_from p repl prev s =
     (case match_here p prev s of
        Some (prev', rest) \<Rightarrow>
          (if length rest < length s then repl @ sub_from p repl prev' rest
           else (case s of [] \<Rightarrow> repl | c # cs \<Rightarrow> repl @ c # sub_from p repl (Some c) cs))
      | None \<Rightarrow> (case s of [] \<Rightarrow> [] | c # cs \<Rightarrow> c # sub_from p repl (Some c) cs))"
  by pat_completeness auto
termination
  by (relation "measure (\<lambda>(p, repl, prev, s). length s)") auto

declare sub_from.simps [simp del]

definition re_sub :: "rx list \<Rightarrow> string \<Rightarrow> string \<Rightarrow> string" where
  \<comment> \<open>\<^verbatim>\<open>re.sub(pattern, repl, text)\<close>\<close>
  "re_sub p repl text = sub_from p repl None text"

definition re_escape :: "string \<Rightarrow> rx list" where
  "re_escape s = map Lit s"

definition lookaround_pattern :: "string \<Rightarrow> rx list" where
  \<comment> \<open>\<^verbatim>\<open>rf"(?<!\w){re.escape(s)}(?!\w)"\<close>\<close>
  "lookaround_pattern s = [NotAfterWord] @ re_escape s @ [NotBeforeWord]"

definition boundary_pattern :: "string list \<Rightarrow> rx list" where
  \<comment> \<open>\<^verbatim>\<open>r"\b" + r"\s+".join(map(re.escape, skill_tokens)) + r"\b"\<close>\<close>
  "boundary_pattern skill_tokens =
     [WordBoundary] @ join [Spaces] (map re_escape skill_tokens) @ [WordBoundary]"

subsection \<open>Taxonomy and aliases\<close>

text \<open>
  The two files carry the same taxonomy and the same alias table. The taxonomy is a set
  literal, listed here in the order of the source; the alias table is a dictionary,
  iterated in the order of insertion.
\<close>

definition SKILL_TAXONOMY :: "string list" where
  "SKILL_TAXONOMY =
     [
      ''python'', ''java'', ''javascript'', ''typescript'', ''c'', ''c++'', ''c#'', ''go'',
      ''ruby'', ''php'', ''swift'', ''kotlin'', ''scala'', ''r'', ''html'', ''css'',
      ''sass'', ''bootstrap'', ''tailwind css'', ''react'', ''angular'', ''vue.js'',
      ''next.js'', ''node.js'', ''express.js'', ''django'', ''flask'', ''spring boot'',
      ''rest api'', ''graphql'', ''microservices'', ''git'', ''github'', ''gitlab'',
      ''bitbucket'', ''aws'', ''azure'', ''gcp'', ''docker'', ''kubernetes'',
      ''terraform'', ''jenkins'', ''ci cd'', ''ansible'', ''linux'', ''bash'',
      ''shell scripting'', ''data analysis'', ''data science'', ''machine learning'',
      ''deep learning'', ''artificial intelligence'', ''nlp'', ''computer vision'',
      ''pandas'', ''numpy'', ''scikit learn'', ''tensorflow'', ''pytorch'', ''keras'',
      ''power bi'', ''tableau'', ''excel'', ''spark'', ''hadoop'', ''airflow'', ''kafka'',
      ''sql'', ''mysql'', ''postgresql'', ''oracle'', ''mongodb'', ''cassandra'',
      ''redis'', ''dynamodb'', ''cyber security'', ''information security'',
      ''network security'', ''penetration testing'', ''ethical hacking'',
      ''risk assessment'', ''business analysis'', ''requirements gathering'',
      ''stakeholder management'', ''process improvement'', ''project management'',
      ''program management'', ''product management'', ''agile'', ''scrum'', ''kanban'',
      ''waterfall'', ''financial analysis'', ''accounting'', ''budgeting'',
      ''forecasting'', ''risk management'', ''taxation'', ''auditing'',
      ''digital marketing'', ''seo'', ''sem'', ''content marketing'', ''email marketing'',
      ''social media marketing'', ''sales'', ''business development'', ''lead generation'',
      ''crm'', ''recruitment'', ''talent acquisition'', ''payroll'', ''hr operations'',
      ''employee engagement'', ''performance management'', ''operations management'',
      ''supply chain management'', ''logistics'', ''clinical research'', ''patient care'',
      ''medical coding'', ''healthcare administration'', ''teaching'',
      ''curriculum development'', ''instructional design'', ''training and development'',
      ''ui design'', ''ux design'', ''figma'', ''adobe photoshop'', ''adobe illustrator'',
      ''communication'', ''leadership'', ''problem solving'', ''critical thinking'',
      ''time management'', ''team collaboration''
     ]"

definition SKILL_ALIASES :: "(string \<times> string) list" where
  "SKILL_ALIASES =
     [
      (''ml'', ''machine learning''),
      (''ai'', ''artificial intelligence''),
      (''js'', ''javascript''),
      (''reactjs'', ''react''),
      (''node'', ''node.js''),
      (''tf'', ''tensorflow''),
      (''ci/cd'', ''ci cd''),
      (''spring-boot'', ''spring boot''),
      (''scikit-learn'', ''scikit learn''),
      (''fp&a'', ''financial analysis''),
      (''seo/sem'', ''seo''),
      (''pm'', ''project management''),
      (''ba'', ''business analysis'')
     ]"

subsection \<open>\<^verbatim>\<open>extract_resume_skills\<close> and \<^verbatim>\<open>extract_skills_from_text\<close>\<close>

definition apply_aliases :: "string \<Rightarrow> string" where
  \<comment> \<open>the loop over \<^verbatim>\<open>SKILL_ALIASES.items()\<close>\<close>
  "apply_aliases text =
     fold (\<lambda>(alias, canonical) text. re_sub (lookaround_pattern alias) canonical text)
       SKILL_ALIASES text"

definition extract_resume_skills :: "string \<Rightarrow> string list" where
  "extract_resume_skills text =
     (let text = normalize_text text;
          text = apply_aliases text;
          found = fold (\<lambda>skill found.
                     if re_search (boundary_pattern (split_ws skill)) text
                     then insert skill found else found) SKILL_TAXONOMY {}
      in sorted_list_of_set found)"

definition extract_skills_from_text :: "string \<Rightarrow> string list" where
  "extract_skills_from_text text =
     (let text = normalize_text text;
          text = apply_aliases text;
          found = fold (\<lambda>skill found.
                     if re_search (lookaround_pattern skill) text
                     then insert skill found else found) SKILL_TAXONOMY {}
      in sorted_list_of_set found)"

section \<open>Notions used in the statements\<close>

text \<open>
  An occurrence of a word is standalone when no word character stands immediately before
  it and none immediately after it. A phrase occurs in a text when its tokens occur one
  after the other, separated by non-empty runs of whitespace, and the whole occurrence is
  standalone. \<open>last_opt\<close>, \<open>standalone_from\<close> and \<open>no_start\<close> serve the proofs about the
  scanning loop of \<^verbatim>\<open>re.sub\<close>: the character before a position, standalone occurrences
  seen from inside the scan, and the positions of a region at which an alias cannot start.
\<close>

text \<open>
  For the scorer: a weight that is a finite binary64 number and not negative; a running
  total that is at least a given number, or infinite; a binary64 number in \<open>[0, 1]\<close>.
\<close>

fun finite_nonneg :: "double \<Rightarrow> bool" where
  "finite_nonneg (Num a) \<longleftrightarrow> 0 \<le> a \<and> rnd a = Num a"
| "finite_nonneg PInf \<longleftrightarrow> False"
| "finite_nonneg NInf \<longleftrightarrow> False"
| "finite_nonneg NaN \<longleftrightarrow> False"

definition at_least :: "real \<Rightarrow> double \<Rightarrow> bool" where
  "at_least a T \<longleftrightarrow> T = PInf \<or> (\<exists>t. T = Num t \<and> a \<le> t)"

definition unit_double :: "double \<Rightarrow> bool" where
  "unit_double d \<longleftrightarrow> (\<exists>b. d = Num b \<and> 0 \<le> b \<and> b \<le> 1)"

text \<open>
  \<^verbatim>\<open>normalize_text\<close> acts on every character by itself: \<open>normalize_char\<close> is what it does
  to one character.
\<close>

definition normalize_char :: "char \<Rightarrow> char" where
  "normalize_char c =
     (let c = lower_char c;
          c = (if c = CHR ''-'' then CHR '' '' else c);
          c = (if c = CHR ''_'' then CHR '' '' else c)
      in (if c = CHR ''.'' then CHR ''.'' else c))"

definition last_opt :: "char option \<Rightarrow> string \<Rightarrow> char option" where
  "last_opt prev w = (if w = [] then prev else Some (last w))"

definition standalone :: "string \<Rightarrow> string \<Rightarrow> bool" where
  "standalone w text \<longleftrightarrow>
     (\<exists>pre post. text = pre @ w @ post
        \<and> (pre = [] \<or> \<not> is_word (last pre)) \<and> (post = [] \<or> \<not> is_word (hd post)))"

inductive spaced :: "string list \<Rightarrow> string \<Rightarrow> bool" where
  one: "spaced [tok] tok"
| more: "spaced toks m \<Longrightarrow> ws \<noteq> [] \<Longrightarrow> list_all is_space ws \<Longrightarrow> spaced (tok # toks) (tok @ ws @ m)"

definition phrase_occurs :: "string \<Rightarrow> string \<Rightarrow> bool" where
  "phrase_occurs phrase text \<longleftrightarrow>
     (\<exists>pre m post. text = pre @ m @ post \<and> spaced (split_ws phrase) m
        \<and> (pre = [] \<or> \<not> is_word (last pre)) \<and> (post = [] \<or> \<not> is_word (hd post)))"

definition standalone_from :: "char option \<Rightarrow> string \<Rightarrow> string \<Rightarrow> bool" where
  "standalone_from prev w s \<longleftrightarrow>
     (\<exists>pre post. s = pre @ w @ post \<and> \<not> word_before (last_opt prev pre) \<and> \<not> word_ahead post)"

fun no_start :: "string \<Rightarrow> bool \<Rightarrow> string \<Rightarrow> bool" where
  "no_start b w [] = True"
| "no_start b w (c # cs) = ((w \<or> c \<noteq> hd b) \<and> no_start b (is_word c) cs)"

section \<open>Properties of binary64 rounding\<close>

lemma bitlen_pos_bounds:
  assumes "0 < n"
  shows "1 \<le> bitlen n" and "(2::real) powi (bitlen n - 1) \<le> of_int n"
    and "of_int n + 1 \<le> (2::real) powi (bitlen n)"
proof -
  from bitlen_bounds [OF assms] have b: "2 ^ nat (bitlen n - 1) \<le> n" "n < 2 ^ nat (bitlen n)"
    by simp_all
  show one: "1 \<le> bitlen n"
    using assms by (simp add: bitlen_alt_def)
  have "(2::real) powi (bitlen n - 1) = 2 ^ nat (bitlen n - 1)"
    using one by (simp add: power_int_def)
  also have "\<dots> = of_int (2 ^ nat (bitlen n - 1))"
    by simp
  also have "\<dots> \<le> of_int n"
    using b(1) by (simp only: of_int_le_iff)
  finally show "(2::real) powi (bitlen n - 1) \<le> of_int n" .
  have "n + 1 \<le> 2 ^ nat (bitlen n)"
    using b(2) by simp
  then have "(of_int (n + 1) :: real) \<le> of_int (2 ^ nat (bitlen n))"
    by (simp only: of_int_le_iff)
  also have "\<dots> = 2 powi (bitlen n)"
    using one by (simp add: power_int_def)
  finally show "of_int n + 1 \<le> (2::real) powi (bitlen n)"
    by simp
qed

lemma ilog2_bounds:
  assumes "0 < x"
  shows "2 powi (ilog2 x) \<le> x" and "x < 2 powi (ilog2 x + 1)"
proof -
  have "2 powi (ilog2 x) \<le> x \<and> x < 2 powi (ilog2 x + 1)"
  proof (cases "1 \<le> x")
    case True
    then have n: "0 < \<lfloor>x\<rfloor>"
      by simp
    have "of_int \<lfloor>x\<rfloor> \<le> x" "x < of_int \<lfloor>x\<rfloor> + 1"
      by linarith+
    with bitlen_pos_bounds(2,3) [OF n]
    have "2 powi (bitlen \<lfloor>x\<rfloor> - 1) \<le> x" "x < 2 powi (bitlen \<lfloor>x\<rfloor> - 1 + 1)"
      by simp_all linarith+
    with True show ?thesis
      by (simp only: ilog2_def if_True)
  next
    case False
    with assms have y: "1 < 1 / x"
      by simp
    define n where "n = \<lceil>1 / x\<rceil> - 1"
    from y have n: "0 < n"
      unfolding n_def by linarith
    have c: "of_int n < 1 / x" "1 / x \<le> of_int n + 1"
      unfolding n_def by linarith+
    from bitlen_pos_bounds [OF n] c
    have "(2::real) powi (bitlen n - 1) < 1 / x" "1 / x \<le> 2 powi (bitlen n)"
      by linarith+
    then have "x < 1 / 2 powi (bitlen n - 1)" "1 / 2 powi (bitlen n) \<le> x"
      using assms by (simp_all add: field_simps)
    then have "x < 2 powi (- bitlen n + 1)" "2 powi (- bitlen n) \<le> x"
      by (simp_all add: power_int_minus_divide [symmetric])
    with False show ?thesis
      by (simp add: ilog2_def n_def)
  qed
  then show "2 powi (ilog2 x) \<le> x" and "x < 2 powi (ilog2 x + 1)"
    by simp_all
qed

lemma two_powi_le_iff: "(2::real) powi a \<le> 2 powi b \<longleftrightarrow> a \<le> b"
proof
  assume "(2::real) powi a \<le> 2 powi b"
  show "a \<le> b"
  proof (rule ccontr)
    assume "\<not> a \<le> b"
    then have "(2::real) powi b < 2 powi a"
      by (intro power_int_strict_increasing) simp_all
    with \<open>(2::real) powi a \<le> 2 powi b\<close> show False
      by simp
  qed
next
  assume "a \<le> b"
  then show "(2::real) powi a \<le> 2 powi b"
    by (intro power_int_increasing) simp_all
qed

lemma two_powi_less_iff: "(2::real) powi a < 2 powi b \<longleftrightarrow> a < b"
  using two_powi_le_iff [of b a] by (simp add: not_le [symmetric])

lemma ilog2_unique:
  assumes "2 powi e \<le> x" and "x < 2 powi (e + 1)"
  shows "ilog2 x = e"
proof -
  have pos: "0 < x"
    using assms(1) zero_less_power_int [of "2::real" e] by linarith
  note b = ilog2_bounds [OF pos]
  have "(2::real) powi e < 2 powi (ilog2 x + 1)"
    using assms(1) b(2) by linarith
  then have "e < ilog2 x + 1"
    by (simp only: two_powi_less_iff)
  moreover have "(2::real) powi (ilog2 x) < 2 powi (e + 1)"
    using assms(2) b(1) by linarith
  then have "ilog2 x < e + 1"
    by (simp only: two_powi_less_iff)
  ultimately show ?thesis
    by simp
qed

lemma round_even_of_int [simp]: "round_even (of_int n) = n"
  by (simp add: round_even_def)

lemma round_even_floor: "\<lfloor>x\<rfloor> \<le> round_even x" "round_even x \<le> \<lfloor>x\<rfloor> + 1"
  by (simp_all add: round_even_def Let_def)

lemma round_even_ge: "of_int n \<le> x \<Longrightarrow> n \<le> round_even x"
proof -
  assume "of_int n \<le> x"
  then have "n \<le> \<lfloor>x\<rfloor>"
    by (simp add: le_floor_iff)
  with round_even_floor(1) [of x] show ?thesis
    by simp
qed

lemma round_even_le:
  assumes "x \<le> of_int n"
  shows "round_even x \<le> n"
proof (cases "x = of_int n")
  case True
  then show ?thesis by simp
next
  case False
  with assms have "x < of_int n"
    by simp
  then have "\<lfloor>x\<rfloor> < n"
    by (simp add: floor_less_iff)
  with round_even_floor(2) [of x] show ?thesis
    by simp
qed

lemma round_even_error: "\<bar>of_int (round_even x) - x\<bar> \<le> 1 / 2"
proof -
  have "of_int \<lfloor>x\<rfloor> \<le> x" "x < of_int \<lfloor>x\<rfloor> + 1"
    by linarith+
  then show ?thesis
    by (auto simp: round_even_def Let_def)
qed

lemma rnd_0 [simp]: "rnd 0 = Num 0"
  by (simp add: rnd_def)

lemma rnd_cases:
  assumes "2 powi e \<le> \<bar>x\<bar>" and "\<bar>x\<bar> < 2 powi (e + 1)"
  shows "rnd x =
     (let q = max e (- 1022) - 52;
          y = of_int (round_even (x / 2 powi q)) * 2 powi q
      in if 2 ^ 1024 \<le> \<bar>y\<bar> then (if 0 < x then PInf else NInf) else Num y)"
proof -
  have "0 < \<bar>x\<bar>"
    using assms(1) zero_less_power_int [of "2::real" e] by linarith
  then have "x \<noteq> 0"
    by simp
  with ilog2_unique [OF assms] show ?thesis
    by (simp add: rnd_def)
qed

lemma bitlen_numerals:
  "bitlen 1 = 1"
  "bitlen (numeral (Num.Bit0 k)) = bitlen (numeral k) + 1"
  "bitlen (numeral (Num.Bit1 k)) = bitlen (numeral k) + 1"
  by (subst compute_bitlen, simp)+

lemmas rnd_eval = rnd_def ilog2_def round_even_def Let_def bitlen_numerals

lemma ilog2_mono:
  assumes "0 < x" and "x \<le> z"
  shows "ilog2 x \<le> ilog2 z"
proof -
  have "0 < z"
    using assms by simp
  from ilog2_bounds(1) [OF assms(1)] ilog2_bounds(2) [OF \<open>0 < z\<close>] assms(2)
  have "(2::real) powi (ilog2 x) < 2 powi (ilog2 z + 1)"
    by linarith
  then show ?thesis
    by (simp only: two_powi_less_iff)
qed

lemma rnd_nonzero:
  assumes "x \<noteq> 0" and "q = max (ilog2 \<bar>x\<bar>) (- 1022) - 52"
    and "y = of_int (round_even (x / 2 powi q)) * 2 powi q"
  shows "rnd x = (if 2 ^ 1024 \<le> \<bar>y\<bar> then (if 0 < x then PInf else NInf) else Num y)"
  using assms by (simp add: rnd_def Let_def)

lemma double_grid:
  assumes "rnd b = Num b" and "b \<noteq> 0" and "q = max (ilog2 \<bar>b\<bar>) (- 1022) - 52"
  shows "b = of_int (round_even (b / 2 powi q)) * 2 powi q" and "\<bar>b\<bar> < 2 ^ 1024"
proof -
  define y :: real where "y = of_int (round_even (b / 2 powi q)) * 2 powi q"
  from rnd_nonzero [OF assms(2,3) y_def] assms(1)
  have "\<not> 2 ^ 1024 \<le> \<bar>y\<bar>" and "y = b"
    by (auto split: if_splits)
  then show "b = of_int (round_even (b / 2 powi q)) * 2 powi q" and "\<bar>b\<bar> < 2 ^ 1024"
    by (simp_all add: y_def)
qed

lemma rnd_upper:
  assumes b: "rnd b = Num b" and z: "0 \<le> z" "z \<le> b"
  shows "\<exists>y. rnd z = Num y \<and> 0 \<le> y \<and> y \<le> b"
proof (cases "z = 0")
  case True
  with z show ?thesis by simp
next
  case False
  with z have pos: "0 < z" "0 < b"
    by simp_all
  define qz where "qz = max (ilog2 \<bar>z\<bar>) (- 1022) - 52"
  define qb where "qb = max (ilog2 \<bar>b\<bar>) (- 1022) - 52"
  define mb where "mb = round_even (b / 2 powi qb)"
  define y :: real where "y = of_int (round_even (z / 2 powi qz)) * 2 powi qz"
  from double_grid [OF b _ qb_def] pos have grid: "b = of_int mb * 2 powi qb" and fin: "\<bar>b\<bar> < 2 ^ 1024"
    by (simp_all add: mb_def)
  have "ilog2 \<bar>z\<bar> \<le> ilog2 \<bar>b\<bar>"
    using ilog2_mono [of z b] pos z by simp
  then have q: "qz \<le> qb"
    by (simp add: qz_def qb_def)
  have p: "(2::real) powi qb = 2 powi (qb - qz) * 2 powi qz"
    by (simp add: power_int_add [symmetric])
  have "(2::real) powi (qb - qz) = of_int (2 ^ nat (qb - qz))"
    using q by (simp add: power_int_def)
  with grid p have bq: "b / 2 powi qz = of_int (mb * 2 ^ nat (qb - qz))"
    by simp
  have "z / 2 powi qz \<le> b / 2 powi qz"
    using z(2) by (simp add: divide_right_mono)
  with bq have "round_even (z / 2 powi qz) \<le> mb * 2 ^ nat (qb - qz)"
    by (simp only: round_even_le)
  then have "(of_int (round_even (z / 2 powi qz)) :: real) \<le> of_int (mb * 2 ^ nat (qb - qz))"
    by (simp only: of_int_le_iff)
  then have "y \<le> of_int (mb * 2 ^ nat (qb - qz)) * 2 powi qz"
    unfolding y_def by (intro mult_right_mono) simp_all
  also have "\<dots> = b / 2 powi qz * 2 powi qz"
    by (simp only: bq)
  also have "\<dots> = b"
    by simp
  finally have yb: "y \<le> b" .
  have "0 \<le> z / 2 powi qz"
    using z(1) by simp
  then have "0 \<le> round_even (z / 2 powi qz)"
    using round_even_ge [of 0 "z / 2 powi qz"] by simp
  then have y0: "0 \<le> y"
    by (simp add: y_def)
  with yb fin pos have "\<not> 2 ^ 1024 \<le> \<bar>y\<bar>"
    by simp
  with rnd_nonzero [OF False qz_def y_def] y0 yb show ?thesis
    by simp
qed

lemma rnd_lower:
  assumes x: "rnd x = Num x" "0 \<le> x" and z: "x \<le> z"
  shows "rnd z = PInf \<or> (\<exists>y. rnd z = Num y \<and> x \<le> y)"
proof (cases "z = 0")
  case True
  with x z show ?thesis by simp
next
  case False
  with x z have zpos: "0 < z"
    by simp
  define qz where "qz = max (ilog2 \<bar>z\<bar>) (- 1022) - 52"
  define y :: real where "y = of_int (round_even (z / 2 powi qz)) * 2 powi qz"
  have r: "rnd z = (if 2 ^ 1024 \<le> \<bar>y\<bar> then PInf else Num y)"
    using rnd_nonzero [OF False qz_def y_def] zpos by simp
  have "x \<le> y"
  proof (cases "x = 0")
    case True
    have "0 \<le> z / 2 powi qz"
      using zpos by simp
    then have "0 \<le> round_even (z / 2 powi qz)"
      using round_even_ge [of 0 "z / 2 powi qz"] by simp
    with True show ?thesis
      by (simp add: y_def)
  next
    case xn: False
    with x have xpos: "0 < x"
      by simp
    define qx where "qx = max (ilog2 \<bar>x\<bar>) (- 1022) - 52"
    define mx where "mx = round_even (x / 2 powi qx)"
    from double_grid(1) [OF x(1) xn qx_def] have grid: "x = of_int mx * 2 powi qx"
      by (simp add: mx_def)
    have e: "ilog2 \<bar>x\<bar> \<le> ilog2 \<bar>z\<bar>"
      using ilog2_mono [of x z] xpos z by simp
    then have q: "qx \<le> qz"
      by (simp add: qx_def qz_def)
    show ?thesis
    proof (cases "qx = qz")
      case True
      with grid have "x / 2 powi qz = of_int mx"
        by simp
      moreover have "x / 2 powi qz \<le> z / 2 powi qz"
        using z by (simp add: divide_right_mono)
      ultimately have "mx \<le> round_even (z / 2 powi qz)"
        by (simp add: round_even_ge)
      then have "(of_int mx :: real) \<le> of_int (round_even (z / 2 powi qz))"
        by (simp only: of_int_le_iff)
      then have "of_int mx * 2 powi qz \<le> y"
        unfolding y_def by (intro mult_right_mono) simp_all
      with grid True show ?thesis
        by simp
    next
      case False
      with q have lt: "qx < qz"
        by simp
      with e have ez: "- 1022 < ilog2 \<bar>z\<bar>" "ilog2 \<bar>x\<bar> < ilog2 \<bar>z\<bar>"
        by (simp_all add: qx_def qz_def max_def split: if_splits)
      then have qz': "qz = ilog2 \<bar>z\<bar> - 52"
        by (simp add: qz_def)
      have "x < 2 powi (ilog2 x + 1)"
        using ilog2_bounds(2) [OF xpos] .
      also have "\<dots> \<le> 2 powi (ilog2 z)"
        using ez(2) xpos zpos by (simp add: two_powi_le_iff)
      finally have xlt: "x < 2 powi (ilog2 z)" .
      have pz: "(2::real) powi (ilog2 z) = of_int (2 ^ 52) * 2 powi qz"
      proof -
        have "(2::real) powi (52 + qz) = 2 powi 52 * 2 powi qz"
          by (rule power_int_add) simp
        moreover have "52 + qz = ilog2 z"
          using zpos by (simp add: qz')
        ultimately show ?thesis
          by simp
      qed
      have "2 powi (ilog2 z) \<le> z"
        using ilog2_bounds(1) [OF zpos] .
      then have "2 powi (ilog2 z) / 2 powi qz \<le> z / 2 powi qz"
        by (simp add: divide_right_mono)
      with pz have "of_int (2 ^ 52) \<le> z / 2 powi qz"
        by simp
      then have "2 ^ 52 \<le> round_even (z / 2 powi qz)"
        by (rule round_even_ge)
      then have "(of_int (2 ^ 52) :: real) \<le> of_int (round_even (z / 2 powi qz))"
        by (simp only: of_int_le_iff)
      then have "of_int (2 ^ 52) * 2 powi qz \<le> y"
        unfolding y_def by (intro mult_right_mono) simp_all
      with pz xlt show ?thesis
        by simp
    qed
  qed
  with r show ?thesis
    by simp
qed

lemma rnd_small: "rnd 1 = Num 1" "rnd 2 = Num 2" "rnd 3 = Num 3" "rnd 4 = Num 4"
  by (simp_all add: rnd_eval)

section \<open>Properties of \<^verbatim>\<open>cos_sim_safe\<close>\<close>

lemma fdiv_NaN [simp]: "fdiv d NaN = NaN"
  by (cases d) simp_all

lemma cos_sim_safe_zero_finite:
  assumes "linalg_norm a = Num 0 \<or> linalg_norm b = Num 0"
    and "linalg_norm a = Num x" and "linalg_norm b = Num y"
  shows "cos_sim_safe a b = Inr (Num 0)"
  using assms by (auto simp: cos_sim_safe_def feq_def)

lemma cos_sim_safe_zero_overflow:
  assumes "linalg_norm a = Num 0" and "linalg_norm b = PInf" and "length a = length b"
  shows "cos_sim_safe a b = Inr NaN"
  using assms by (simp add: cos_sim_safe_def feq_def inf_of_def sign_of_def np_dot_def)

lemma rnd_1e200: "rnd (10 ^ 200) = Num huge"
  unfolding huge_def
  by (subst rnd_cases [where e = "664"]) (simp_all add: round_even_def Let_def)

lemma square_huge: "rnd (huge * huge) = PInf"
  unfolding huge_def
  by (subst rnd_cases [where e = "1328"]) (simp_all add: round_even_def Let_def)

lemma norm_zero: "linalg_norm [Num 0, Num 0] = Num 0"
  by (simp add: linalg_norm_def)

lemma norm_huge: "linalg_norm [Num huge, Num huge] = PInf"
  by (simp add: linalg_norm_def square_huge)

text \<open>
  Claim C3. The claim returns \<open>0.0\<close>, and never NaN, whenever one of the two vectors has
  norm zero. \<^verbatim>\<open>cos_sim_safe\<close> does so when the other norm is finite
  (\<open>cos_sim_safe_zero_finite\<close>). For the zero vector \<^verbatim>\<open>[0.0, 0.0]\<close> and the vector
  \<^verbatim>\<open>[1e200, 1e200]\<close> the first norm is zero, the square of \<^verbatim>\<open>1e200\<close> overflows and the
  second norm is infinite, their product is NaN, the test \<^verbatim>\<open>denom == 0\<close> fails and the
  function returns NaN.
\<close>
theorem cos_sim_safe_zero_times_overflow:
  "rnd (10 ^ 200) = Num huge
   \<and> linalg_norm [Num 0, Num 0] = Num 0
   \<and> linalg_norm [Num huge, Num huge] = PInf
   \<and> cos_sim_safe [Num 0, Num 0] [Num huge, Num huge] = Inr NaN"
  using cos_sim_safe_zero_overflow [OF norm_zero norm_huge]
  by (simp only: rnd_1e200 norm_zero norm_huge list.size simp_thms)

section \<open>Properties of the scorer\<close>

lemma clamp01_range: "0 \<le> clamp01 x \<and> clamp01 x \<le> 1"
  by (simp add: clamp01_def)

lemma clamp01_examples: "clamp01 (3 / 2) = clamp01 1" "clamp01 (- 1 / 2) = clamp01 0"
  by (simp_all add: clamp01_def)

lemma list4: "length (ws :: 'a list) = 4 \<Longrightarrow> ws = [ws ! 0, ws ! 1, ws ! 2, ws ! 3]"
  by (auto simp: list_eq_iff_nth_eq nth_Cons' numeral_eq_Suc less_Suc_eq)

lemma weighted_formula:
  assumes "length ws = 4" "0 < sum_list ws"
  shows "compute_final_score s k r p (Some ws) =
     Inr (ws ! 0 / sum_list ws * clamp01 s + ws ! 1 / sum_list ws * clamp01 k
          + ws ! 2 / sum_list ws * clamp01 r + ws ! 3 / sum_list ws * clamp01 p)"
  using assms by (simp add: compute_final_score_def Let_def)

lemma frac_bound:
  fixes q x :: real
  shows "0 \<le> q \<Longrightarrow> 0 \<le> x \<and> x \<le> 1 \<Longrightarrow> 0 \<le> q * x \<and> q * x \<le> q"
  by (simp add: mult_left_le)

lemma weighted_range:
  fixes a b c d T :: real
  assumes "0 \<le> a" "0 \<le> b" "0 \<le> c" "0 \<le> d" "T = a + b + c + d" "0 < T"
    and "0 \<le> x \<and> x \<le> 1" "0 \<le> y \<and> y \<le> 1" "0 \<le> z \<and> z \<le> 1" "0 \<le> u \<and> u \<le> 1"
  shows "0 \<le> a / T * x + b / T * y + c / T * z + d / T * u
       \<and> a / T * x + b / T * y + c / T * z + d / T * u \<le> 1"
proof -
  define qa qb qc qd where "qa = a / T" and "qb = b / T" and "qc = c / T" and "qd = d / T"
  have q: "0 \<le> qa" "0 \<le> qb" "0 \<le> qc" "0 \<le> qd"
    using assms by (simp_all add: qa_def qb_def qc_def qd_def)
  have "qa + qb + qc + qd = (a + b + c + d) / T"
    by (simp add: qa_def qb_def qc_def qd_def add_divide_distrib)
  then have one: "qa + qb + qc + qd = 1"
    using assms by simp
  have "0 \<le> qa * x + qb * y + qc * z + qd * u \<and> qa * x + qb * y + qc * z + qd * u \<le> 1"
    using frac_bound [OF q(1) assms(7)] frac_bound [OF q(2) assms(8)]
      frac_bound [OF q(3) assms(9)] frac_bound [OF q(4) assms(10)] one
    by linarith
  then show ?thesis
    by (simp only: qa_def qb_def qc_def qd_def)
qed

lemma sum4: "length (ws :: real list) = 4 \<Longrightarrow> sum_list ws = ws ! 0 + ws ! 1 + ws ! 2 + ws ! 3"
  using list4 [of ws] by (metis (no_types, lifting) add.assoc add.right_neutral sum_list.Cons sum_list.Nil)


lemma weighted_in_unit:
  assumes "length ws = 4" "0 < sum_list ws" "\<forall>w\<in>set ws. 0 \<le> w"
  shows "0 \<le> ws ! 0 / sum_list ws * clamp01 s + ws ! 1 / sum_list ws * clamp01 k
          + ws ! 2 / sum_list ws * clamp01 r + ws ! 3 / sum_list ws * clamp01 p
       \<and> ws ! 0 / sum_list ws * clamp01 s + ws ! 1 / sum_list ws * clamp01 k
          + ws ! 2 / sum_list ws * clamp01 r + ws ! 3 / sum_list ws * clamp01 p \<le> 1"
proof -
  have "0 \<le> ws ! 0" "0 \<le> ws ! 1" "0 \<le> ws ! 2" "0 \<le> ws ! 3"
    using assms(1,3) by simp_all
  then show ?thesis
    using assms(2) sum4 [OF assms(1)]
    by (intro weighted_range clamp01_range) simp_all
qed

lemma clamp_insensitive:
  "compute_final_score (3 / 2) k r p W = compute_final_score 1 k r p W"
  "compute_final_score (- 1 / 2) k r p W = compute_final_score 0 k r p W"
  "compute_final_score s (3 / 2) r p W = compute_final_score s 1 r p W"
  "compute_final_score s (- 1 / 2) r p W = compute_final_score s 0 r p W"
  "compute_final_score s k (3 / 2) p W = compute_final_score s k 1 p W"
  "compute_final_score s k (- 1 / 2) p W = compute_final_score s k 0 p W"
  "compute_final_score s k r (3 / 2) W = compute_final_score s k r 1 W"
  "compute_final_score s k r (- 1 / 2) W = compute_final_score s k r 0 W"
  by (simp_all only: compute_final_score_def clamp01_examples)

lemma default_all_ones:
  "compute_final_score 1 1 1 1 None = Inr 1"
  "compute_final_score 1 1 1 1 (Some default_weights) = Inr 1"
  by (simp_all add: compute_final_score_def default_weights_def clamp01_def)

text \<open>
  The same scorer in binary64. The sum of non-negative weights is at least every one of
  them, so every normalised weight lies in \<open>[0, 1]\<close>, and so does every product with a
  clamped sub-score.
\<close>

lemmas score_eval = compute_final_score_f64_def py_sum_def clamp01_f64_def py_min_def py_max_def

lemma finite_nonnegE:
  assumes "finite_nonneg w"
  obtains a where "w = Num a" and "0 \<le> a" and "rnd a = Num a"
  using assms by (cases w) simp_all

lemma fadd_at_least:
  assumes "rnd a = Num a" and "0 \<le> a" and "at_least a T" and "0 \<le> c"
  shows "at_least a (fadd T (Num c))"
proof (cases "T = PInf")
  case True
  then show ?thesis by (simp add: at_least_def)
next
  case False
  with assms(3) obtain t where t: "T = Num t" "a \<le> t"
    by (auto simp: at_least_def)
  with assms(4) have "a \<le> t + c"
    by simp
  from rnd_lower [OF assms(1,2) this] t(1) show ?thesis
    by (simp add: at_least_def)
qed

lemma fadd_at_least_new:
  assumes "rnd c = Num c" and "0 \<le> c" and "at_least 0 T"
  shows "at_least c (fadd T (Num c))"
proof (cases "T = PInf")
  case True
  then show ?thesis by (simp add: at_least_def)
next
  case False
  with assms(3) obtain t where t: "T = Num t" "0 \<le> t"
    by (auto simp: at_least_def)
  then have "c \<le> t + c"
    by simp
  from rnd_lower [OF assms(1,2) this] t(1) show ?thesis
    by (simp add: at_least_def)
qed

lemma foldl_keeps:
  assumes "rnd a = Num a" and "0 \<le> a"
  shows "\<forall>w\<in>set ws. finite_nonneg w \<Longrightarrow> at_least a T \<Longrightarrow> at_least a (foldl fadd T ws)"
proof (induction ws arbitrary: T)
  case Nil
  then show ?case by simp
next
  case (Cons w ws)
  from Cons.prems(1) obtain c where c: "w = Num c" "0 \<le> c"
    by (auto elim: finite_nonnegE)
  from fadd_at_least [OF assms Cons.prems(2) c(2)] have "at_least a (fadd T w)"
    by (simp add: c(1))
  with Cons.IH Cons.prems(1) show ?case
    by simp
qed

lemma foldl_reaches:
  "\<forall>w\<in>set ws. finite_nonneg w \<Longrightarrow> Num a \<in> set ws \<Longrightarrow> at_least 0 T \<Longrightarrow>
     at_least a (foldl fadd T ws)"
proof (induction ws arbitrary: T)
  case Nil
  then show ?case by simp
next
  case (Cons w ws)
  from Cons.prems(1) obtain c where c: "w = Num c" "0 \<le> c" "rnd c = Num c"
    by (auto elim: finite_nonnegE)
  show ?case
  proof (cases "a = c")
    case True
    from fadd_at_least_new [OF c(3,2) Cons.prems(3)] have "at_least a (fadd T w)"
      by (simp add: c(1) True)
    from foldl_keeps [OF _ _ _ this, of ws] c(2,3) True Cons.prems(1) show ?thesis
      by simp
  next
    case False
    with Cons.prems(2) c(1) have "Num a \<in> set ws"
      by simp
    moreover from fadd_at_least [OF rnd_0 order_refl Cons.prems(3) c(2)] have "at_least 0 (fadd T w)"
      by (simp add: c(1))
    ultimately show ?thesis
      using Cons.IH Cons.prems(1) by simp
  qed
qed

lemma py_sum_at_least:
  assumes "\<forall>w\<in>set ws. finite_nonneg w" and "Num a \<in> set ws"
  shows "at_least a (py_sum ws)"
  unfolding py_sum_def
  by (rule foldl_reaches [OF assms]) (simp add: at_least_def)

lemma clamp01_f64_unit: "unit_double (clamp01_f64 x)"
  unfolding unit_double_def
  by (cases x) (simp_all add: clamp01_f64_def py_min_def py_max_def)

lemma fdiv_unit:
  assumes "0 \<le> a" and "at_least a T" and "flt (Num 0) T"
  shows "unit_double (fdiv (Num a) T)"
proof (cases "T = PInf")
  case True
  then show ?thesis by (simp add: unit_double_def)
next
  case False
  with assms(2) obtain t where t: "T = Num t" "a \<le> t"
    by (auto simp: at_least_def)
  with assms(3) have tpos: "0 < t"
    by simp
  with assms(1) t(2) have "0 \<le> a / t" "a / t \<le> 1"
    by simp_all
  from rnd_upper [OF rnd_small(1) this] t(1) tpos show ?thesis
    by (simp add: unit_double_def)
qed

lemma fmul_unit:
  assumes "unit_double x" and "unit_double y"
  shows "unit_double (fmul x y)"
proof -
  from assms obtain b c where b: "x = Num b" "0 \<le> b" "b \<le> 1" and c: "y = Num c" "0 \<le> c" "c \<le> 1"
    by (auto simp: unit_double_def)
  then have "0 \<le> b * c" "b * c \<le> 1"
    by (simp_all add: mult_le_one)
  from rnd_upper [OF rnd_small(1) this] b(1) c(1) show ?thesis
    by (simp add: unit_double_def)
qed

lemma fadd_bounded:
  assumes "rnd (m + 1) = Num (m + 1)" and "x = Num b" "0 \<le> b" "b \<le> m" and "unit_double y"
  shows "\<exists>s. fadd x y = Num s \<and> 0 \<le> s \<and> s \<le> m + 1"
proof -
  from assms(5) obtain c where c: "y = Num c" "0 \<le> c" "c \<le> 1"
    by (auto simp: unit_double_def)
  with assms(3,4) have "0 \<le> b + c" "b + c \<le> m + 1"
    by simp_all
  from rnd_upper [OF assms(1) this] assms(2) c(1) show ?thesis
    by simp
qed

lemma score_nonneg:
  assumes len: "length ws = 4" and ok: "\<forall>w\<in>set ws. finite_nonneg w"
    and pos: "flt (Num 0) (py_sum ws)"
  shows "\<exists>v. compute_final_score_f64 s k r p (Some ws) = Inr (Num v) \<and> 0 \<le> v \<and> v \<le> 4"
proof -
  define T where "T = py_sum ws"
  have w: "unit_double (fdiv (ws ! i) T)" if "i < 4" for i
  proof -
    from that len have mem: "ws ! i \<in> set ws"
      by simp
    with ok obtain a where a: "ws ! i = Num a" "0 \<le> a"
      by (auto elim: finite_nonnegE)
    from py_sum_at_least [OF ok] mem a(1) have "at_least a T"
      by (simp add: T_def)
    from fdiv_unit [OF a(2) this] pos a(1) show ?thesis
      by (simp add: T_def)
  qed
  have p0: "unit_double (fmul (fdiv (ws ! 0) T) (clamp01_f64 s))"
    and p1: "unit_double (fmul (fdiv (ws ! 1) T) (clamp01_f64 k))"
    and p2: "unit_double (fmul (fdiv (ws ! 2) T) (clamp01_f64 r))"
    and p3: "unit_double (fmul (fdiv (ws ! 3) T) (clamp01_f64 p))"
    by (simp_all add: fmul_unit w clamp01_f64_unit)
  from p0 obtain b0 where b0: "fmul (fdiv (ws ! 0) T) (clamp01_f64 s) = Num b0" "0 \<le> b0" "b0 \<le> 1"
    by (auto simp: unit_double_def)
  from fadd_bounded [OF _ b0 p1] obtain s1
    where s1: "fadd (fmul (fdiv (ws ! 0) T) (clamp01_f64 s)) (fmul (fdiv (ws ! 1) T) (clamp01_f64 k)) = Num s1"
      "0 \<le> s1" "s1 \<le> 2"
    using rnd_small(2) by auto
  from fadd_bounded [OF _ s1 p2] obtain s2
    where s2: "fadd (fadd (fmul (fdiv (ws ! 0) T) (clamp01_f64 s)) (fmul (fdiv (ws ! 1) T) (clamp01_f64 k)))
        (fmul (fdiv (ws ! 2) T) (clamp01_f64 r)) = Num s2" "0 \<le> s2" "s2 \<le> 3"
    using rnd_small(3) by auto
  from fadd_bounded [OF _ s2 p3] obtain s3
    where s3: "fadd (fadd (fadd (fmul (fdiv (ws ! 0) T) (clamp01_f64 s)) (fmul (fdiv (ws ! 1) T) (clamp01_f64 k)))
        (fmul (fdiv (ws ! 2) T) (clamp01_f64 r))) (fmul (fdiv (ws ! 3) T) (clamp01_f64 p)) = Num s3"
      "0 \<le> s3" "s3 \<le> 4"
    using rnd_small(4) by auto
  have "compute_final_score_f64 s k r p (Some ws) = Inr (Num s3)"
    using len pos s3(1) by (simp add: compute_final_score_f64_def Let_def T_def)
  with s3(2,3) show ?thesis
    by simp
qed

lemma clamp01_f64_examples:
  "clamp01_f64 (Num (3 / 2)) = clamp01_f64 (Num 1)"
  "clamp01_f64 (Num (- 1 / 2)) = clamp01_f64 (Num 0)"
  by (simp_all add: clamp01_f64_def py_min_def py_max_def)

lemma clamp_insensitive_f64:
  "compute_final_score_f64 (Num (3 / 2)) k r p W = compute_final_score_f64 (Num 1) k r p W"
  "compute_final_score_f64 (Num (- 1 / 2)) k r p W = compute_final_score_f64 (Num 0) k r p W"
  "compute_final_score_f64 s (Num (3 / 2)) r p W = compute_final_score_f64 s (Num 1) r p W"
  "compute_final_score_f64 s (Num (- 1 / 2)) r p W = compute_final_score_f64 s (Num 0) r p W"
  "compute_final_score_f64 s k (Num (3 / 2)) p W = compute_final_score_f64 s k (Num 1) p W"
  "compute_final_score_f64 s k (Num (- 1 / 2)) p W = compute_final_score_f64 s k (Num 0) p W"
  "compute_final_score_f64 s k r (Num (3 / 2)) W = compute_final_score_f64 s k r (Num 1) W"
  "compute_final_score_f64 s k r (Num (- 1 / 2)) W = compute_final_score_f64 s k r (Num 0) W"
  by (simp_all only: compute_final_score_f64_def clamp01_f64_examples)

lemma default_all_ones_f64:
  "compute_final_score_f64 (Num 1) (Num 1) (Num 1) (Num 1) None = Inr (Num 1)"
  "compute_final_score_f64 (Num 1) (Num 1) (Num 1) (Num 1) (Some default_weights_f64) = Inr (Num 1)"
  by (simp_all add: score_eval rnd_eval default_weights_f64_def)

lemma weighted_formula_f64:
  assumes "length ws = 4" and "flt (Num 0) (py_sum ws)"
  shows "compute_final_score_f64 s k r p (Some ws)
     = Inr (fadd (fadd (fadd (fmul (fdiv (ws ! 0) (py_sum ws)) (clamp01_f64 s))
                             (fmul (fdiv (ws ! 1) (py_sum ws)) (clamp01_f64 k)))
                       (fmul (fdiv (ws ! 2) (py_sum ws)) (clamp01_f64 r)))
                 (fmul (fdiv (ws ! 3) (py_sum ws)) (clamp01_f64 p)))"
  using assms by (simp add: compute_final_score_f64_def Let_def)







text \<open>
  Claim C7. For a resume skill set \<open>R\<close> (a duplicate-free list) and job skills \<open>J\<close>, the
  keyword sub-score is \<open>|R \<inter> J| / max(1, |R|)\<close>. It is defined for every input, it is
  \<open>0\<close> for the empty resume, it always lies in \<open>[0, 1]\<close>, it is \<open>0.5\<close> for resume skills
  python, sql against job skills python, aws, and it is not symmetric in its arguments.
\<close>
theorem keyword_overlap:
  "(distinct rs \<longrightarrow>
      keyword rs js = real (card (set rs \<inter> set js)) / real (max 1 (card (set rs))))
   \<and> 0 \<le> keyword rs js \<and> keyword rs js \<le> 1
   \<and> keyword [] js = 0
   \<and> keyword [''python'', ''sql''] [''python'', ''aws''] = 1 / 2
   \<and> keyword [''python'', ''sql''] [''python''] \<noteq> keyword [''python''] [''python'', ''sql'']"
proof -
  have "card (set rs \<inter> set js) \<le> length rs"
    by (meson List.finite_set card_length card_mono inf_le1 le_trans)
  then have "real (card (set rs \<inter> set js)) \<le> real (max 1 (length rs))"
    by simp
  then have le1: "keyword rs js \<le> 1"
    by (simp add: keyword_def divide_le_eq_1)
  have ge0: "0 \<le> keyword rs js"
    by (simp add: keyword_def)
  have d: "distinct rs \<longrightarrow>
      keyword rs js = real (card (set rs \<inter> set js)) / real (max 1 (card (set rs)))"
    by (simp add: keyword_def distinct_card)
  have e1: "set [''python'', ''sql''] \<inter> set [''python'', ''aws''] = {''python''}"
    by auto
  have e2: "set [''python'', ''sql''] \<inter> set [''python''] = {''python''}"
    by auto
  have e3: "set [''python''] \<inter> set [''python'', ''sql''] = {''python''}"
    by auto
  have ex: "keyword [''python'', ''sql''] [''python'', ''aws''] = 1 / 2"
    unfolding keyword_def e1 by simp
  have asym: "keyword [''python'', ''sql''] [''python''] \<noteq> keyword [''python''] [''python'', ''sql'']"
    unfolding keyword_def e2 e3 by simp
  show ?thesis
    using d ge0 le1 ex asym by (simp add: keyword_def)
qed

theorem keyword_overlap_witness:
  "distinct [''python'', ''sql''] \<and> card (set [''python'', ''sql'']) = 2
   \<and> keyword [''python'', ''sql''] [''python'', ''aws''] = 1 / 2"
  using keyword_overlap [of "[''python'', ''sql'']" "[''python'', ''aws'']"]
  by simp

text \<open>
  Claim C9. The missing skills of a job are the job skills that are not resume skills:
  the elements of the result are exactly the set difference, and the result is sorted
  lexicographically and free of duplicates. For resume python and job python, sql the
  result is the one-element list sql.
\<close>
theorem missing_is_sorted_difference:
  "set (missing rs js) = set js - set rs
   \<and> sorted (missing rs js) \<and> distinct (missing rs js)
   \<and> missing [''python''] [''python'', ''sql''] = [''sql'']"
proof -
  have "set [''python'', ''sql''] - set [''python''] = {''sql''}"
    by auto
  then have "missing [''python''] [''python'', ''sql''] = [''sql'']"
    unfolding missing_def by simp
  then show ?thesis
    by (simp add: missing_def)
qed

lemma string_order_examples:
  "''aws'' < ''python''" "''c'' < ''c#''" "''c#'' < ''c++''" "''python'' < ''sql''"
  by (simp_all add: less_char_def)

text \<open>
  For a \<^verbatim>\<open>datetime\<close> that carries a time zone the recency sub-score is the step function
  of the posting age in whole days: at most one day gives \<open>1.0\<close>, more than one and at most
  seven days \<open>0.8\<close>, more than seven and at most thirty days \<open>0.6\<close>, more than thirty days
  \<open>0.3\<close>. A missing date and a date string that cannot be parsed give the neutral \<open>0.5\<close>; a
  date string that parses is scored as the date it denotes.
\<close>

lemma recency_bands:
  "recency parse now NoDate = 1 / 2
   \<and> (parse s = None \<longrightarrow> recency parse now (DateStr s) = 1 / 2)
   \<and> (aware d \<longrightarrow>
        (let n = timedelta_days now (micros d); v = recency parse now (DateTime d) in
           (n \<le> 1 \<longrightarrow> v = 1) \<and> (1 < n \<and> n \<le> 7 \<longrightarrow> v = 8 / 10)
           \<and> (7 < n \<and> n \<le> 30 \<longrightarrow> v = 6 / 10) \<and> (30 < n \<longrightarrow> v = 3 / 10)))
   \<and> (s \<noteq> [] \<and> parse s = Some d \<longrightarrow>
        recency parse now (DateStr s) = recency parse now (DateTime d))
   \<and> (aware d \<and> timedelta_days now (micros d) = 0 \<longrightarrow> recency parse now (DateTime d) = 1)
   \<and> (aware d \<and> timedelta_days now (micros d) = 15 \<longrightarrow>
        recency parse now (DateTime d) = 6 / 10)"
  by (simp add: recency_def age_score_def band_def Let_def)

lemma recency_bands_examples:
  "recency (\<lambda>s. None) 0 (DateStr ''soon'') = 1 / 2"
  "recency (\<lambda>s. None) (15 * 86400000000 + 5) (DateTime \<lparr>aware = True, micros = 0\<rparr>) = 6 / 10"
  "recency (\<lambda>s. Some \<lparr>aware = True, micros = 0\<rparr>) (3 * 86400000000)
     (DateStr ''2024-01-01T00:00:00Z'') = 8 / 10"
  "recency (\<lambda>s. None) (31 * 86400000000) (DateTime \<lparr>aware = True, micros = 0\<rparr>) = 3 / 10"
  by (simp_all add: recency_def age_score_def band_def timedelta_days_def)

text \<open>
  Claim C6. The claim gives every job the step function of its posting age: age zero gives
  \<open>1.0\<close>. The job loop does so only for a \<^verbatim>\<open>datetime\<close> that carries a time zone. A stored
  \<^verbatim>\<open>posted_date\<close> comes back from the database without one; subtracting it from
  \<^verbatim>\<open>utc_now()\<close> raises, and the bare \<^verbatim>\<open>except\<close> gives the neutral \<open>0.5\<close> at every age: a
  job posted at this very instant, of age zero, for which the step function gives \<open>1.0\<close>,
  is scored \<open>0.5\<close>.
\<close>
theorem recency_naive_datetime:
  "recency parse now (DateTime \<lparr>aware = False, micros = t\<rparr>) = 5 / 10
   \<and> timedelta_days now now = 0
   \<and> band (timedelta_days now now) = 1
   \<and> recency parse now (DateTime \<lparr>aware = False, micros = now\<rparr>) = 5 / 10
   \<and> recency parse now (DateTime \<lparr>aware = True, micros = now\<rparr>) = 1"
  by (simp add: recency_def age_score_def band_def timedelta_days_def)

section \<open>Properties of the extractors\<close>

subsection \<open>Characters\<close>

lemma space_not_word: "is_space c \<Longrightarrow> \<not> is_word c"
  unfolding is_space_def is_word_def Let_def by presburger

lemma lower_char_nonword:
  assumes "\<not> is_word c"
  shows "lower_char c = c"
proof -
  have "\<not> ((65 \<le> (of_char c :: nat) \<and> (of_char c :: nat) \<le> 90)
     \<or> (192 \<le> (of_char c :: nat) \<and> (of_char c :: nat) \<le> 214)
     \<or> (216 \<le> (of_char c :: nat) \<and> (of_char c :: nat) \<le> 222))"
    using assms unfolding is_word_def Let_def by presburger
  then show ?thesis
    unfolding lower_char_def Let_def by (rule if_not_P)
qed

lemma lower_char_space: "is_space c \<Longrightarrow> lower_char c = c"
  by (simp add: lower_char_nonword space_not_word)

lemma is_word_ascii:
  "is_word CHR ''a''" "is_word CHR ''b''" "is_word CHR ''c''" "is_word CHR ''d''"
  "is_word CHR ''e''" "is_word CHR ''f''" "is_word CHR ''g''" "is_word CHR ''h''"
  "is_word CHR ''i''" "is_word CHR ''j''" "is_word CHR ''k''" "is_word CHR ''l''"
  "is_word CHR ''m''" "is_word CHR ''n''" "is_word CHR ''o''" "is_word CHR ''p''"
  "is_word CHR ''q''" "is_word CHR ''r''" "is_word CHR ''s''" "is_word CHR ''t''"
  "is_word CHR ''u''" "is_word CHR ''v''" "is_word CHR ''w''" "is_word CHR ''x''"
  "is_word CHR ''y''" "is_word CHR ''z''" "is_word CHR ''_''"
  "\<not> is_word CHR '' ''" "\<not> is_word CHR ''+''" "\<not> is_word CHR ''#''"
  "\<not> is_word CHR ''.''" "\<not> is_word CHR ''/''" "\<not> is_word CHR ''-''"
  "\<not> is_word CHR ''&''" "\<not> is_word CHR '',''"
  by (simp_all add: is_word_def)

lemma is_space_ascii:
  "\<not> is_space CHR ''a''" "\<not> is_space CHR ''b''" "\<not> is_space CHR ''c''" "\<not> is_space CHR ''d''"
  "\<not> is_space CHR ''e''" "\<not> is_space CHR ''f''" "\<not> is_space CHR ''g''" "\<not> is_space CHR ''h''"
  "\<not> is_space CHR ''i''" "\<not> is_space CHR ''j''" "\<not> is_space CHR ''k''" "\<not> is_space CHR ''l''"
  "\<not> is_space CHR ''m''" "\<not> is_space CHR ''n''" "\<not> is_space CHR ''o''" "\<not> is_space CHR ''p''"
  "\<not> is_space CHR ''q''" "\<not> is_space CHR ''r''" "\<not> is_space CHR ''s''" "\<not> is_space CHR ''t''"
  "\<not> is_space CHR ''u''" "\<not> is_space CHR ''v''" "\<not> is_space CHR ''w''" "\<not> is_space CHR ''x''"
  "\<not> is_space CHR ''y''" "\<not> is_space CHR ''z''" "\<not> is_space CHR ''_''"
  "is_space CHR '' ''" "\<not> is_space CHR ''+''" "\<not> is_space CHR ''#''"
  "\<not> is_space CHR ''.''" "\<not> is_space CHR ''/''" "\<not> is_space CHR ''-''"
  "\<not> is_space CHR ''&''" "\<not> is_space CHR '',''"
  by (simp_all add: is_space_def)

lemma found_fold:
  "fold (\<lambda>skill found. if P skill then insert skill found else found) xs A = A \<union> set (filter P xs)"
  by (induction xs arbitrary: A) auto

lemma extract_resume_skills_eq:
  "extract_resume_skills text =
     sort (remdups (filter (\<lambda>skill. re_search (boundary_pattern (split_ws skill))
        (apply_aliases (normalize_text text))) SKILL_TAXONOMY))"
  unfolding extract_resume_skills_def Let_def found_fold
  by (simp only: Un_empty_left sorted_list_of_set_sort_remdups)

subsection \<open>The matcher\<close>

lemma last_opt_simps [simp]:
  "last_opt prev [] = prev"
  "last_opt prev (c # cs) = last_opt (Some c) cs"
  "last_opt prev (xs @ [c]) = Some c"
  by (simp_all add: last_opt_def)

lemma last_opt_append: "last_opt prev (xs @ ys) = last_opt (last_opt prev xs) ys"
  by (simp add: last_opt_def)

lemma word_before_last_opt: "\<not> word_before (last_opt None pre) \<longleftrightarrow> pre = [] \<or> \<not> is_word (last pre)"
  by (simp add: last_opt_def)

lemma word_ahead_iff: "\<not> word_ahead post \<longleftrightarrow> post = [] \<or> \<not> is_word (hd post)"
  by (cases post) simp_all

lemma match_lits:
  "match_here (map Lit w @ rs) prev (w @ s) = match_here rs (last_opt prev w) s"
  by (induction w arbitrary: prev) simp_all

lemma match_lits_prefix:
  "match_here (map Lit w @ rs) prev s = Some m \<Longrightarrow> \<exists>s'. s = w @ s'"
proof (induction w arbitrary: prev s)
  case Nil
  then show ?case by simp
next
  case (Cons c w)
  then show ?case
    by (cases s) (auto split: if_splits)
qed

lemma match_lits_iff:
  "match_here (map Lit w @ rs) prev s = Some m
     \<longleftrightarrow> (\<exists>s'. s = w @ s' \<and> match_here rs (last_opt prev w) s' = Some m)"
  using match_lits match_lits_prefix by (metis append_same_eq)

lemma lookaround_match_iff:
  "match_here (lookaround_pattern a) prev s = Some (q, rest)
     \<longleftrightarrow> \<not> word_before prev \<and> s = a @ rest \<and> \<not> word_ahead rest \<and> q = last_opt prev a"
  by (auto simp: lookaround_pattern_def re_escape_def match_lits_iff)

lemma search_from_iff:
  "search_from p prev s
     \<longleftrightarrow> (\<exists>pre rest. s = pre @ rest \<and> match_here p (last_opt prev pre) rest \<noteq> None)"
proof (induction s arbitrary: prev)
  case Nil
  then show ?case by simp
next
  case (Cons c cs)
  show ?case
  proof
    assume "search_from p prev (c # cs)"
    then consider "match_here p prev (c # cs) \<noteq> None" | "search_from p (Some c) cs"
      by auto
    then show "\<exists>pre rest. c # cs = pre @ rest \<and> match_here p (last_opt prev pre) rest \<noteq> None"
    proof cases
      case 1
      then have "c # cs = [] @ (c # cs) \<and> match_here p (last_opt prev []) (c # cs) \<noteq> None"
        by simp
      then show ?thesis by blast
    next
      case 2
      then obtain pre rest where "cs = pre @ rest" "match_here p (last_opt (Some c) pre) rest \<noteq> None"
        using Cons.IH by blast
      then have "c # cs = (c # pre) @ rest \<and> match_here p (last_opt prev (c # pre)) rest \<noteq> None"
        by simp
      then show ?thesis by blast
    qed
  next
    assume "\<exists>pre rest. c # cs = pre @ rest \<and> match_here p (last_opt prev pre) rest \<noteq> None"
    then obtain pre rest where h: "c # cs = pre @ rest" "match_here p (last_opt prev pre) rest \<noteq> None"
      by blast
    show "search_from p prev (c # cs)"
    proof (cases pre)
      case Nil
      with h have "match_here p prev (c # cs) \<noteq> None"
        by (metis append_Nil last_opt_simps(1))
      then show ?thesis by simp
    next
      case (Cons d pre')
      with h have "cs = pre' @ rest" "match_here p (last_opt (Some c) pre') rest \<noteq> None"
        by simp_all
      then have "search_from p (Some c) cs"
        using Cons.IH by blast
      then show ?thesis by simp
    qed
  qed
qed

lemma spaces_match_iff:
  "match_here (Spaces # rs) prev s \<noteq> None
     \<longleftrightarrow> (\<exists>ws rest. s = ws @ rest \<and> ws \<noteq> [] \<and> list_all is_space ws
            \<and> match_here rs (Some (last ws)) rest \<noteq> None)"
proof (induction s arbitrary: prev)
  case Nil
  then show ?case by simp
next
  case (Cons c cs)
  show ?case
  proof
    assume a: "match_here (Spaces # rs) prev (c # cs) \<noteq> None"
    then have sp: "is_space c"
      by (auto split: if_splits)
    from a sp consider "match_here (Spaces # rs) (Some c) cs \<noteq> None" | "match_here rs (Some c) cs \<noteq> None"
      by (auto split: option.splits)
    then show "\<exists>ws rest. c # cs = ws @ rest \<and> ws \<noteq> [] \<and> list_all is_space ws
            \<and> match_here rs (Some (last ws)) rest \<noteq> None"
    proof cases
      case 1
      then obtain ws rest where "cs = ws @ rest" "ws \<noteq> []" "list_all is_space ws"
        "match_here rs (Some (last ws)) rest \<noteq> None"
        using Cons.IH by blast
      then have "c # cs = (c # ws) @ rest \<and> c # ws \<noteq> [] \<and> list_all is_space (c # ws)
            \<and> match_here rs (Some (last (c # ws))) rest \<noteq> None"
        using sp by simp
      then show ?thesis by blast
    next
      case 2
      then have "c # cs = [c] @ cs \<and> [c] \<noteq> [] \<and> list_all is_space [c]
            \<and> match_here rs (Some (last [c])) cs \<noteq> None"
        using sp by simp
      then show ?thesis by blast
    qed
  next
    assume "\<exists>ws rest. c # cs = ws @ rest \<and> ws \<noteq> [] \<and> list_all is_space ws
            \<and> match_here rs (Some (last ws)) rest \<noteq> None"
    then obtain ws rest where h: "c # cs = ws @ rest" "ws \<noteq> []" "list_all is_space ws"
        "match_here rs (Some (last ws)) rest \<noteq> None"
      by blast
    then obtain ws' where ws: "ws = c # ws'"
      by (cases ws) auto
    with h have sp: "is_space c" and cs: "cs = ws' @ rest"
      by simp_all
    show "match_here (Spaces # rs) prev (c # cs) \<noteq> None"
    proof (cases "ws' = []")
      case True
      with h ws cs have "match_here rs (Some c) cs \<noteq> None"
        by simp
      with sp show ?thesis
        by (auto split: option.splits)
    next
      case False
      with h ws cs have "match_here (Spaces # rs) (Some c) cs \<noteq> None"
        using Cons.IH [of "Some c"] by auto
      with sp show ?thesis
        by (auto split: option.splits)
    qed
  qed
qed

lemma spaced_Nil [simp]: "\<not> spaced [] m"
  by (auto elim: spaced.cases)

lemma spaced_single [simp]: "spaced [t] m \<longleftrightarrow> m = t"
  by (auto elim: spaced.cases intro: spaced.one)

lemma spaced_Cons:
  "toks \<noteq> [] \<Longrightarrow>
   spaced (t # toks) m
     \<longleftrightarrow> (\<exists>ws m'. m = t @ ws @ m' \<and> ws \<noteq> [] \<and> list_all is_space ws \<and> spaced toks m')"
  using spaced.simps [of "t # toks" m] by auto

lemma join_Cons: "ys \<noteq> [] \<Longrightarrow> join sep (x # ys) = x @ sep @ join sep ys"
  by (cases ys) simp_all

lemma match_lits_not_None:
  "match_here (map Lit w @ rs) prev s \<noteq> None
     \<longleftrightarrow> (\<exists>s'. s = w @ s' \<and> match_here rs (last_opt prev w) s' \<noteq> None)"
proof
  assume "match_here (map Lit w @ rs) prev s \<noteq> None"
  then obtain m where m: "match_here (map Lit w @ rs) prev s = Some m"
    by blast
  then obtain s' where "s = w @ s'"
    using match_lits_prefix by blast
  with m show "\<exists>s'. s = w @ s' \<and> match_here rs (last_opt prev w) s' \<noteq> None"
    by (auto simp: match_lits)
next
  assume "\<exists>s'. s = w @ s' \<and> match_here rs (last_opt prev w) s' \<noteq> None"
  then show "match_here (map Lit w @ rs) prev s \<noteq> None"
    by (auto simp: match_lits)
qed

lemma last_opt_spaced_tail:
  "ws \<noteq> [] \<Longrightarrow> last_opt prev (t @ ws @ m) = last_opt (Some (last ws)) m"
  by (simp add: last_opt_def)

lemma tokens_match_iff:
  assumes "toks \<noteq> []"
  shows "match_here (join [Spaces] (map re_escape toks) @ rs) prev s \<noteq> None
     \<longleftrightarrow> (\<exists>mid rest. s = mid @ rest \<and> spaced toks mid
            \<and> match_here rs (last_opt prev mid) rest \<noteq> None)"
  using assms
proof (induction toks arbitrary: prev s rule: list_nonempty_induct)
  case (single t)
  have "join [Spaces] (map re_escape [t]) @ rs = map Lit t @ rs"
    by (simp add: re_escape_def)
  then show ?case
    using match_lits_not_None [of t rs prev s] by auto
next
  case (cons t toks)
  have "match_here (join [Spaces] (map re_escape (t # toks)) @ rs) prev s \<noteq> None
    \<longleftrightarrow> match_here (map Lit t @ Spaces # (join [Spaces] (map re_escape toks) @ rs)) prev s \<noteq> None"
    using cons.hyps by (simp add: join_Cons re_escape_def)
  also have "\<dots> \<longleftrightarrow> (\<exists>s'. s = t @ s'
      \<and> match_here (Spaces # (join [Spaces] (map re_escape toks) @ rs)) (last_opt prev t) s' \<noteq> None)"
    by (rule match_lits_not_None)
  also have "\<dots> \<longleftrightarrow> (\<exists>s' ws r1. s = t @ s' \<and> s' = ws @ r1 \<and> ws \<noteq> [] \<and> list_all is_space ws
      \<and> match_here (join [Spaces] (map re_escape toks) @ rs) (Some (last ws)) r1 \<noteq> None)"
    by (simp only: spaces_match_iff) blast
  also have "\<dots> \<longleftrightarrow> (\<exists>s' ws r1 mid' rest. s = t @ s' \<and> s' = ws @ r1 \<and> ws \<noteq> []
      \<and> list_all is_space ws \<and> r1 = mid' @ rest \<and> spaced toks mid'
      \<and> match_here rs (last_opt (Some (last ws)) mid') rest \<noteq> None)"
    by (simp only: cons.IH) blast
  also have "\<dots> \<longleftrightarrow> (\<exists>mid rest. s = mid @ rest \<and> spaced (t # toks) mid
            \<and> match_here rs (last_opt prev mid) rest \<noteq> None)"
  proof
    assume "\<exists>s' ws r1 mid' rest. s = t @ s' \<and> s' = ws @ r1 \<and> ws \<noteq> []
      \<and> list_all is_space ws \<and> r1 = mid' @ rest \<and> spaced toks mid'
      \<and> match_here rs (last_opt (Some (last ws)) mid') rest \<noteq> None"
    then obtain ws mid' rest where h: "s = t @ ws @ mid' @ rest" "ws \<noteq> []"
      "list_all is_space ws" "spaced toks mid'"
      "match_here rs (last_opt (Some (last ws)) mid') rest \<noteq> None"
      by auto
    then have "s = (t @ ws @ mid') @ rest \<and> spaced (t # toks) (t @ ws @ mid')
       \<and> match_here rs (last_opt prev (t @ ws @ mid')) rest \<noteq> None"
      using cons.hyps by (simp add: spaced_Cons last_opt_spaced_tail) blast
    then show "\<exists>mid rest. s = mid @ rest \<and> spaced (t # toks) mid
            \<and> match_here rs (last_opt prev mid) rest \<noteq> None"
      by blast
  next
    assume "\<exists>mid rest. s = mid @ rest \<and> spaced (t # toks) mid
            \<and> match_here rs (last_opt prev mid) rest \<noteq> None"
    then obtain mid rest where h: "s = mid @ rest" "spaced (t # toks) mid"
      "match_here rs (last_opt prev mid) rest \<noteq> None"
      by blast
    then obtain ws m' where m: "mid = t @ ws @ m'" "ws \<noteq> []" "list_all is_space ws" "spaced toks m'"
      using cons.hyps by (auto simp: spaced_Cons)
    with h have "s = t @ (ws @ m' @ rest) \<and> ws @ m' @ rest = ws @ (m' @ rest) \<and> ws \<noteq> []
      \<and> list_all is_space ws \<and> m' @ rest = m' @ rest \<and> spaced toks m'
      \<and> match_here rs (last_opt (Some (last ws)) m') rest \<noteq> None"
      by (simp add: last_opt_spaced_tail)
    then show "\<exists>s' ws r1 mid' rest. s = t @ s' \<and> s' = ws @ r1 \<and> ws \<noteq> []
      \<and> list_all is_space ws \<and> r1 = mid' @ rest \<and> spaced toks mid'
      \<and> match_here rs (last_opt (Some (last ws)) mid') rest \<noteq> None"
      by blast
  qed
  finally show ?case .
qed

lemma boundary_match_iff:
  assumes "toks \<noteq> []"
  shows "match_here (boundary_pattern toks) prev s \<noteq> None
     \<longleftrightarrow> (\<exists>mid rest. s = mid @ rest \<and> spaced toks mid
            \<and> word_before prev \<noteq> word_ahead s
            \<and> word_before (last_opt prev mid) \<noteq> word_ahead rest)"
proof -
  have "match_here (boundary_pattern toks) prev s \<noteq> None
    \<longleftrightarrow> word_before prev \<noteq> word_ahead s
       \<and> match_here (join [Spaces] (map re_escape toks) @ [WordBoundary]) prev s \<noteq> None"
    by (simp add: boundary_pattern_def)
  also have "\<dots> \<longleftrightarrow> word_before prev \<noteq> word_ahead s
       \<and> (\<exists>mid rest. s = mid @ rest \<and> spaced toks mid
            \<and> match_here [WordBoundary] (last_opt prev mid) rest \<noteq> None)"
    by (simp only: tokens_match_iff [OF assms])
  also have "\<dots> \<longleftrightarrow> (\<exists>mid rest. s = mid @ rest \<and> spaced toks mid
            \<and> word_before prev \<noteq> word_ahead s
            \<and> word_before (last_opt prev mid) \<noteq> word_ahead rest)"
    by auto
  finally show ?thesis .
qed

lemma re_search_boundary_iff:
  assumes "toks \<noteq> []"
  shows "re_search (boundary_pattern toks) text
     \<longleftrightarrow> (\<exists>pre mid post. text = pre @ mid @ post \<and> spaced toks mid
            \<and> word_before (last_opt None pre) \<noteq> word_ahead (mid @ post)
            \<and> word_before (last_opt None (pre @ mid)) \<noteq> word_ahead post)"
  unfolding re_search_def search_from_iff boundary_match_iff [OF assms]
  by (auto simp: last_opt_append)

subsection \<open>Phrases\<close>

lemma spaced_ends:
  "spaced toks m \<Longrightarrow> \<forall>t\<in>set toks. t \<noteq> [] \<Longrightarrow>
     m \<noteq> [] \<and> hd m = hd (hd toks) \<and> last m = last (last toks)"
proof (induction rule: spaced.induct)
  case (one tok)
  then show ?case by simp
next
  case (more toks m ws tok)
  then have "toks \<noteq> []"
    by auto
  with more show ?case
    by simp
qed

lemma re_search_phrase_iff:
  assumes "toks \<noteq> []" and "\<forall>t\<in>set toks. t \<noteq> []"
    and "is_word (hd (hd toks))" and "is_word (last (last toks))"
  shows "re_search (boundary_pattern toks) text
     \<longleftrightarrow> (\<exists>pre m post. text = pre @ m @ post \<and> spaced toks m
            \<and> (pre = [] \<or> \<not> is_word (last pre)) \<and> (post = [] \<or> \<not> is_word (hd post)))"
proof -
  have ends: "word_ahead (m @ post) \<and> word_before (last_opt None (pre @ m))"
    if "spaced toks m" for m pre post
  proof -
    from spaced_ends [OF that assms(2)] have m: "m \<noteq> []" "hd m = hd (hd toks)" "last m = last (last toks)"
      by simp_all
    then obtain c cs where "m = c # cs"
      by (cases m) auto
    with m assms(3,4) show ?thesis
      by (simp add: last_opt_def)
  qed
  have "re_search (boundary_pattern toks) text
     \<longleftrightarrow> (\<exists>pre m post. text = pre @ m @ post \<and> spaced toks m
            \<and> word_before (last_opt None pre) \<noteq> word_ahead (m @ post)
            \<and> word_before (last_opt None (pre @ m)) \<noteq> word_ahead post)"
    by (rule re_search_boundary_iff [OF assms(1)])
  also have "\<dots> \<longleftrightarrow> (\<exists>pre m post. text = pre @ m @ post \<and> spaced toks m
            \<and> \<not> word_before (last_opt None pre) \<and> \<not> word_ahead post)"
    using ends by blast
  also have "\<dots> \<longleftrightarrow> (\<exists>pre m post. text = pre @ m @ post \<and> spaced toks m
            \<and> (pre = [] \<or> \<not> is_word (last pre)) \<and> (post = [] \<or> \<not> is_word (hd post)))"
    by (simp only: word_before_last_opt word_ahead_iff)
  finally show ?thesis .
qed

lemma split_acc_nonempty: "\<forall>t\<in>set (split_acc cur s). t \<noteq> []"
  by (induction s arbitrary: cur) auto

lemma split_acc_first:
  "cur \<noteq> [] \<Longrightarrow> split_acc cur s \<noteq> [] \<and> hd (hd (split_acc cur s)) = last cur"
  by (induction s arbitrary: cur) (auto simp: hd_rev)

lemma split_acc_last:
  "(s = [] \<longrightarrow> cur \<noteq> []) \<Longrightarrow> (s \<noteq> [] \<longrightarrow> \<not> is_space (last s)) \<Longrightarrow>
     split_acc cur s \<noteq> [] \<and> last (last (split_acc cur s)) = (if s = [] then hd cur else last s)"
proof (induction s arbitrary: cur)
  case Nil
  then show ?case by (simp add: last_rev)
next
  case (Cons c cs)
  show ?case
  proof (cases "is_space c")
    case True
    with Cons.prems have cs: "cs \<noteq> []"
      by auto
    with Cons.prems have "\<not> is_space (last cs)"
      by simp
    with cs have "split_acc [] cs \<noteq> [] \<and> last (last (split_acc [] cs)) = last cs"
      using Cons.IH [of "[]"] by simp
    with True cs show ?thesis
      by simp
  next
    case False
    have "split_acc (c # cur) cs \<noteq> []
      \<and> last (last (split_acc (c # cur) cs)) = (if cs = [] then hd (c # cur) else last cs)"
      using Cons.prems by (intro Cons.IH) auto
    with False show ?thesis
      by simp
  qed
qed

lemma split_ws_ends:
  assumes "s \<noteq> []" and "\<not> is_space (hd s)" and "\<not> is_space (last s)"
  shows "split_ws s \<noteq> [] \<and> (\<forall>t\<in>set (split_ws s). t \<noteq> [])
     \<and> hd (hd (split_ws s)) = hd s \<and> last (last (split_ws s)) = last s"
proof -
  obtain c cs where s: "s = c # cs"
    using assms(1) by (cases s) auto
  with assms(2) have "split_ws s = split_acc [c] cs"
    by (simp add: split_ws_def)
  then have "hd (hd (split_ws s)) = hd s"
    using split_acc_first [of "[c]" cs] s by simp
  moreover have "split_ws s \<noteq> [] \<and> last (last (split_ws s)) = last s"
    using split_acc_last [of s "[]"] assms by (simp add: split_ws_def)
  ultimately show ?thesis
    by (simp add: split_ws_def split_acc_nonempty)
qed

lemma word_not_space: "is_word c \<Longrightarrow> \<not> is_space c"
  using space_not_word by blast

lemma extract_resume_skills_mem:
  "s \<in> set (extract_resume_skills text)
     \<longleftrightarrow> s \<in> set SKILL_TAXONOMY
         \<and> re_search (boundary_pattern (split_ws s)) (apply_aliases (normalize_text text))"
  by (simp add: extract_resume_skills_eq)

lemma extract_skills_from_text_eq:
  "extract_skills_from_text text =
     sort (remdups (filter (\<lambda>skill. re_search (lookaround_pattern skill)
        (apply_aliases (normalize_text text))) SKILL_TAXONOMY))"
  unfolding extract_skills_from_text_def Let_def found_fold
  by (simp only: Un_empty_left sorted_list_of_set_sort_remdups)

lemma extract_skills_from_text_mem:
  "s \<in> set (extract_skills_from_text text)
     \<longleftrightarrow> s \<in> set SKILL_TAXONOMY
         \<and> re_search (lookaround_pattern s) (apply_aliases (normalize_text text))"
  by (simp add: extract_skills_from_text_eq)

lemma extract_resume_skills_phrase_iff:
  assumes "s \<in> set SKILL_TAXONOMY" and "s \<noteq> []" and "is_word (hd s)" and "is_word (last s)"
  shows "s \<in> set (extract_resume_skills text)
     \<longleftrightarrow> phrase_occurs s (apply_aliases (normalize_text text))"
proof -
  from split_ws_ends [OF assms(2) word_not_space [OF assms(3)] word_not_space [OF assms(4)]]
  have t: "split_ws s \<noteq> []" "\<forall>t\<in>set (split_ws s). t \<noteq> []"
    "is_word (hd (hd (split_ws s)))" "is_word (last (last (split_ws s)))"
    using assms(3,4) by simp_all
  show ?thesis
    unfolding extract_resume_skills_mem phrase_occurs_def
    using assms(1) re_search_phrase_iff [OF t] by simp
qed

lemma taxonomy_word_delimited:
  "list_all (\<lambda>s. s = ''c++'' \<or> s = ''c#'' \<or> (s \<noteq> [] \<and> is_word (hd s) \<and> is_word (last s)))
     SKILL_TAXONOMY"
  by (simp add: SKILL_TAXONOMY_def is_word_ascii)

subsection \<open>Alias substitution\<close>

lemma sub_from_Nil:
  "a \<noteq> [] \<Longrightarrow> sub_from (lookaround_pattern a) repl prev [] = []"
  by (cases a) (simp_all add: sub_from.simps lookaround_pattern_def re_escape_def)

lemma sub_from_no_match:
  "match_here p prev (c # cs) = None \<Longrightarrow>
     sub_from p repl prev (c # cs) = c # sub_from p repl (Some c) cs"
  by (simp add: sub_from.simps)

lemma sub_from_match:
  assumes "a \<noteq> []" and "\<not> word_before prev" and "\<not> word_ahead rest"
  shows "sub_from (lookaround_pattern a) repl prev (a @ rest)
     = repl @ sub_from (lookaround_pattern a) repl (Some (last a)) rest"
proof -
  have "match_here (lookaround_pattern a) prev (a @ rest) = Some (Some (last a), rest)"
    using assms by (simp add: lookaround_match_iff last_opt_def)
  then show ?thesis
    using assms(1) by (subst sub_from.simps) simp
qed

lemma lookaround_no_match:
  "word_before prev \<or> (\<forall>post. s \<noteq> a @ post) \<Longrightarrow> match_here (lookaround_pattern a) prev s = None"
  using lookaround_match_iff [of a prev s]
  by (cases "match_here (lookaround_pattern a) prev s") auto

lemma standalone_from_None: "standalone w text \<longleftrightarrow> standalone_from None w text"
  by (simp only: standalone_def standalone_from_def word_before_last_opt word_ahead_iff)

lemma standalone_from_Cons:
  "standalone_from (Some c) w cs \<Longrightarrow> standalone_from prev w (c # cs)"
proof -
  assume "standalone_from (Some c) w cs"
  then obtain pre post where "cs = pre @ w @ post" "\<not> word_before (last_opt (Some c) pre)"
    "\<not> word_ahead post"
    unfolding standalone_from_def by blast
  then have "c # cs = (c # pre) @ w @ post \<and> \<not> word_before (last_opt prev (c # pre))
      \<and> \<not> word_ahead post"
    by simp
  then show ?thesis
    unfolding standalone_from_def by blast
qed

lemma sub_from_unchanged:
  assumes "a \<noteq> []"
  shows "\<not> standalone_from prev a s \<Longrightarrow> sub_from (lookaround_pattern a) repl prev s = s"
proof (induction s arbitrary: prev)
  case Nil
  then show ?case
    using assms by (simp add: sub_from_Nil)
next
  case (Cons c cs)
  have "match_here (lookaround_pattern a) prev (c # cs) = None"
  proof (cases "match_here (lookaround_pattern a) prev (c # cs)")
    case None
    then show ?thesis .
  next
    case (Some m)
    obtain q rest where "m = (q, rest)"
      by (cases m)
    with Some have "\<not> word_before prev" "c # cs = a @ rest" "\<not> word_ahead rest"
      by (simp_all add: lookaround_match_iff)
    then have "c # cs = [] @ a @ rest \<and> \<not> word_before (last_opt prev []) \<and> \<not> word_ahead rest"
      by simp
    then have "standalone_from prev a (c # cs)"
      unfolding standalone_from_def by blast
    with Cons.prems show ?thesis
      by simp
  qed
  moreover have "\<not> standalone_from (Some c) a cs"
    using Cons.prems standalone_from_Cons by blast
  ultimately show ?case
    using Cons.IH by (simp add: sub_from_no_match)
qed

lemma re_sub_unchanged:
  "a \<noteq> [] \<Longrightarrow> \<not> standalone a text \<Longrightarrow> re_sub (lookaround_pattern a) repl text = text"
  by (simp add: re_sub_def standalone_from_None sub_from_unchanged)

lemma standalone_subset: "standalone a text \<Longrightarrow> set a \<subseteq> set text"
  by (auto simp: standalone_def)

lemma aliases_letters:
  "list_all (\<lambda>(a, c). a \<noteq> [] \<and> is_word (hd a) \<and> is_word (last a)) SKILL_ALIASES"
  by (simp add: SKILL_ALIASES_def is_word_ascii)

lemma apply_aliases_unchanged:
  assumes "\<forall>c\<in>set text. \<not> is_word c"
  shows "apply_aliases text = text"
proof -
  have step: "re_sub (lookaround_pattern a) c text = text"
    if "(a, c) \<in> set SKILL_ALIASES" for a c
  proof -
    from that aliases_letters have a: "a \<noteq> []" "is_word (hd a)"
      by (auto simp: list_all_iff)
    then have "hd a \<in> set a"
      by simp
    with a assms have "\<not> set a \<subseteq> set text"
      by blast
    then have "\<not> standalone a text"
      using standalone_subset by blast
    with a show ?thesis
      by (simp add: re_sub_unchanged)
  qed
  have "fold (\<lambda>(alias, canonical) text. re_sub (lookaround_pattern alias) canonical text) xs text = text"
    if "set xs \<subseteq> set SKILL_ALIASES" for xs
    using that by (induction xs) (auto simp: step)
  then show ?thesis
    by (simp add: apply_aliases_def)
qed

lemma normalize_text_space:
  assumes "\<forall>c\<in>set text. is_space c"
  shows "normalize_text text = text"
proof -
  have "(if (if lower_char c = CHR ''-'' then CHR '' '' else lower_char c) = CHR ''_'' then CHR '' ''
         else (if lower_char c = CHR ''-'' then CHR '' '' else lower_char c)) = c"
    if "is_space c" for c
  proof -
    from that have "lower_char c = c" "c \<noteq> CHR ''-''" "c \<noteq> CHR ''_''"
      using is_space_ascii by (auto simp: lower_char_space)
    then show ?thesis by simp
  qed
  then have "map ((\<lambda>c. if c = CHR ''_'' then CHR '' '' else c)
       \<circ> (\<lambda>c. if c = CHR ''-'' then CHR '' '' else c) \<circ> lower_char) text = map (\<lambda>c. c) text"
    using assms by (intro map_cong) simp_all
  then show ?thesis
    by (simp add: normalize_text_def replace_char_def Let_def)
qed

lemma no_boundary_search:
  "\<forall>c\<in>set s. \<not> is_word c \<Longrightarrow> \<not> word_before prev \<Longrightarrow> \<not> search_from (WordBoundary # rs) prev s"
proof (induction s arbitrary: prev)
  case Nil
  then show ?case by simp
next
  case (Cons c cs)
  then show ?case by simp
qed

lemma extract_resume_skills_blank:
  assumes "\<forall>c\<in>set text. is_space c"
  shows "extract_resume_skills text = []"
proof -
  have nw: "\<forall>c\<in>set text. \<not> is_word c"
    using assms space_not_word by blast
  have "apply_aliases (normalize_text text) = text"
    using assms nw by (simp add: normalize_text_space apply_aliases_unchanged)
  moreover have "\<not> re_search (boundary_pattern toks) text" for toks
    using no_boundary_search [OF nw, of None] by (simp add: re_search_def boundary_pattern_def)
  ultimately show ?thesis
    by (simp add: extract_resume_skills_eq)
qed

text \<open>
  Claim C5. For every input string, \<^verbatim>\<open>extract_resume_skills\<close> returns a list that is sorted
  lexicographically, has no duplicates and contains only entries of the skill taxonomy. For
  the empty string and for a string of whitespace characters only the result is the empty
  list. The function is total: the source has no \<^verbatim>\<open>raise\<close> and the model has no error
  branch.
\<close>
theorem extract_resume_skills_sorted_subset:
  "sorted (extract_resume_skills text) \<and> distinct (extract_resume_skills text)
   \<and> set (extract_resume_skills text) \<subseteq> set SKILL_TAXONOMY
   \<and> ((\<forall>c\<in>set text. is_space c) \<longrightarrow> extract_resume_skills text = [])
   \<and> extract_resume_skills [] = []"
proof -
  have "extract_resume_skills [] = []"
    by (rule extract_resume_skills_blank) simp
  then show ?thesis
    using extract_resume_skills_blank [of "text"]
    by (auto simp: extract_resume_skills_eq)
qed

theorem extract_resume_skills_sorted_subset_witness:
  "list_all is_space [CHR '' '', CHR 0x09, CHR 0x0A]
   \<and> extract_resume_skills [CHR '' '', CHR 0x09, CHR 0x0A] = []"
  using extract_resume_skills_sorted_subset [of "[CHR '' '', CHR 0x09, CHR 0x0A]"]
  by (simp add: is_space_def)

lemma sub_from_nonword_head:
  assumes "a \<noteq> []" and "is_word (hd a)" and "\<not> word_ahead post"
  shows "\<not> word_ahead (sub_from (lookaround_pattern a) repl prev post)"
proof (cases post)
  case Nil
  then show ?thesis
    using assms(1) by (simp add: sub_from_Nil)
next
  case (Cons c cs)
  with assms(3) have "\<not> is_word c"
    by simp
  with assms(1,2) have "\<forall>rest. c # cs \<noteq> a @ rest"
    by (cases a) auto
  then have "match_here (lookaround_pattern a) prev (c # cs) = None"
    by (simp add: lookaround_no_match)
  with Cons \<open>\<not> is_word c\<close> show ?thesis
    by (simp add: sub_from_no_match)
qed

lemma scan_prefix:
  assumes "a \<noteq> []"
  shows "(\<forall>p1 p2 rest. pre = p1 @ p2 \<and> p2 \<noteq> [] \<and> p2 @ tail = a @ rest
            \<and> \<not> word_before (last_opt prev p1) \<and> \<not> word_ahead rest \<longrightarrow> length a < length p2)
     \<Longrightarrow> \<exists>pre2. sub_from (lookaround_pattern a) repl prev (pre @ tail)
              = pre2 @ sub_from (lookaround_pattern a) repl (last_opt prev pre) tail
            \<and> (pre = [] \<longrightarrow> pre2 = []) \<and> (pre \<noteq> [] \<longrightarrow> pre2 \<noteq> [] \<and> last pre2 = last pre)"
proof (induction "length pre" arbitrary: pre prev rule: less_induct)
  case less
  note H = less.prems
  show ?case
  proof (cases pre)
    case Nil
    then show ?thesis by simp
  next
    case (Cons c pre1)
    show ?thesis
    proof (cases "match_here (lookaround_pattern a) prev (pre @ tail)")
      case None
      have H1: "\<forall>p1 p2 rest. pre1 = p1 @ p2 \<and> p2 \<noteq> [] \<and> p2 @ tail = a @ rest
            \<and> \<not> word_before (last_opt (Some c) p1) \<and> \<not> word_ahead rest \<longrightarrow> length a < length p2"
      proof (intro allI impI)
        fix p1 p2 rest
        assume h: "pre1 = p1 @ p2 \<and> p2 \<noteq> [] \<and> p2 @ tail = a @ rest
            \<and> \<not> word_before (last_opt (Some c) p1) \<and> \<not> word_ahead rest"
        then have "pre = (c # p1) @ p2 \<and> p2 \<noteq> [] \<and> p2 @ tail = a @ rest
            \<and> \<not> word_before (last_opt prev (c # p1)) \<and> \<not> word_ahead rest"
          using Cons by simp
        with H show "length a < length p2"
          by blast
      qed
      have "length pre1 < length pre"
        using Cons by simp
      from less.hyps [OF this H1] obtain pre2 where
        p: "sub_from (lookaround_pattern a) repl (Some c) (pre1 @ tail)
              = pre2 @ sub_from (lookaround_pattern a) repl (last_opt (Some c) pre1) tail"
          "pre1 = [] \<longrightarrow> pre2 = []" "pre1 \<noteq> [] \<longrightarrow> pre2 \<noteq> [] \<and> last pre2 = last pre1"
        by blast
      have "sub_from (lookaround_pattern a) repl prev (pre @ tail)
          = (c # pre2) @ sub_from (lookaround_pattern a) repl (last_opt prev pre) tail"
        using None Cons p(1) by (simp add: sub_from_no_match)
      moreover have "last (c # pre2) = last pre"
        using Cons p(2,3) by (cases "pre1 = []") simp_all
      ultimately show ?thesis
        using Cons by blast
    next
      case (Some m)
      obtain q rest where m: "m = (q, rest)"
        by (cases m)
      with Some have mt: "\<not> word_before prev" "pre @ tail = a @ rest" "\<not> word_ahead rest"
        by (simp_all add: lookaround_match_iff)
      have "pre = [] @ pre \<and> pre \<noteq> [] \<and> pre @ tail = a @ rest
            \<and> \<not> word_before (last_opt prev []) \<and> \<not> word_ahead rest"
        using mt Cons by simp
      with H have len: "length a < length pre"
        by blast
      then obtain pre1' where pre: "pre = a @ pre1'" and ne: "pre1' \<noteq> []"
        using mt(2)
        by (metis append_eq_append_conv_if append_take_drop_id drop_eq_Nil leD)
      with mt(2) have rest: "rest = pre1' @ tail"
        by simp
      have H1: "\<forall>p1 p2 rest. pre1' = p1 @ p2 \<and> p2 \<noteq> [] \<and> p2 @ tail = a @ rest
            \<and> \<not> word_before (last_opt (Some (last a)) p1) \<and> \<not> word_ahead rest \<longrightarrow> length a < length p2"
      proof (intro allI impI)
        fix p1 p2 rest
        assume h: "pre1' = p1 @ p2 \<and> p2 \<noteq> [] \<and> p2 @ tail = a @ rest
            \<and> \<not> word_before (last_opt (Some (last a)) p1) \<and> \<not> word_ahead rest"
        have "last_opt prev (a @ p1) = last_opt (Some (last a)) p1"
          using assms by (simp add: last_opt_def)
        with h have "pre = (a @ p1) @ p2 \<and> p2 \<noteq> [] \<and> p2 @ tail = a @ rest
            \<and> \<not> word_before (last_opt prev (a @ p1)) \<and> \<not> word_ahead rest"
          using pre by simp
        with H show "length a < length p2"
          by blast
      qed
      have "length pre1' < length pre"
        using pre assms by simp
      from less.hyps [OF this H1] obtain pre2 where
        p: "sub_from (lookaround_pattern a) repl (Some (last a)) (pre1' @ tail)
              = pre2 @ sub_from (lookaround_pattern a) repl (last_opt (Some (last a)) pre1') tail"
          "pre1' \<noteq> [] \<longrightarrow> pre2 \<noteq> [] \<and> last pre2 = last pre1'"
        by blast
      have lo: "last_opt (Some (last a)) pre1' = last_opt prev pre"
        using pre ne by (simp add: last_opt_def)
      have "sub_from (lookaround_pattern a) repl prev (pre @ tail)
          = repl @ sub_from (lookaround_pattern a) repl (Some (last a)) (pre1' @ tail)"
        using sub_from_match [OF assms mt(1), of "pre1' @ tail" repl] mt(3) rest pre by simp
      then have "sub_from (lookaround_pattern a) repl prev (pre @ tail)
          = (repl @ pre2) @ sub_from (lookaround_pattern a) repl (last_opt prev pre) tail"
        using p(1) lo by simp
      moreover have "repl @ pre2 \<noteq> [] \<and> last (repl @ pre2) = last pre"
        using p(2) ne pre by simp
      ultimately show ?thesis
        using Cons by blast
    qed
  qed
qed

lemma standalone_fromI:
  "s = pre @ w @ post \<Longrightarrow> \<not> word_before (last_opt prev pre) \<Longrightarrow> \<not> word_ahead post
     \<Longrightarrow> standalone_from prev w s"
  unfolding standalone_from_def by blast

lemma sub_replaces_standalone:
  assumes a: "a \<noteq> []" "list_all is_word a"
    and s: "standalone a text"
  shows "standalone repl (re_sub (lookaround_pattern a) repl text)"
proof -
  from s obtain pre post where t: "text = pre @ a @ post"
    and b: "\<not> word_before (last_opt None pre)" "\<not> word_ahead post"
    unfolding standalone_from_None standalone_from_def by blast
  have pl: "pre \<noteq> [] \<longrightarrow> \<not> is_word (last pre)"
    using b(1) unfolding word_before_last_opt by blast
  have H: "\<forall>p1 p2 rest. pre = p1 @ p2 \<and> p2 \<noteq> [] \<and> p2 @ (a @ post) = a @ rest
            \<and> \<not> word_before (last_opt None p1) \<and> \<not> word_ahead rest \<longrightarrow> length a < length p2"
  proof (intro allI impI)
    fix p1 p2 rest
    assume h: "pre = p1 @ p2 \<and> p2 \<noteq> [] \<and> p2 @ (a @ post) = a @ rest
            \<and> \<not> word_before (last_opt None p1) \<and> \<not> word_ahead rest"
    show "length a < length p2"
    proof (rule ccontr)
      assume "\<not> length a < length p2"
      then have "length p2 \<le> length a"
        by simp
      with h have "p2 = take (length p2) a"
        by (metis append_eq_append_conv_if append_eq_conv_conj)
      then have "set p2 \<subseteq> set a"
        by (metis set_take_subset)
      moreover have "last p2 \<in> set p2"
        using h by simp
      moreover have "last p2 = last pre"
        using h by simp
      ultimately have "is_word (last pre)"
        using a(2) by (auto simp: list_all_iff)
      with pl h show False
        by simp
    qed
  qed
  from scan_prefix [OF a(1) H, of repl] obtain pre2 where
    p: "sub_from (lookaround_pattern a) repl None (pre @ a @ post)
          = pre2 @ sub_from (lookaround_pattern a) repl (last_opt None pre) (a @ post)"
      "pre = [] \<longrightarrow> pre2 = []" "pre \<noteq> [] \<longrightarrow> pre2 \<noteq> [] \<and> last pre2 = last pre"
    by blast
  have "sub_from (lookaround_pattern a) repl (last_opt None pre) (a @ post)
      = repl @ sub_from (lookaround_pattern a) repl (Some (last a)) post"
    by (rule sub_from_match [OF a(1) b])
  with p(1) t have r: "re_sub (lookaround_pattern a) repl text
      = pre2 @ repl @ sub_from (lookaround_pattern a) repl (Some (last a)) post"
    by (simp add: re_sub_def)
  have "is_word (hd a)"
    using a by (cases a) simp_all
  then have "\<not> word_ahead (sub_from (lookaround_pattern a) repl (Some (last a)) post)"
    by (rule sub_from_nonword_head [OF a(1) _ b(2)])
  moreover have "\<not> word_before (last_opt None pre2)"
    using p(2,3) pl by (cases "pre = []") (simp_all add: last_opt_def)
  ultimately show ?thesis
    unfolding standalone_from_None using r by (intro standalone_fromI [of _ pre2]) simp_all
qed

lemma zip_tl_adjacent:
  "p \<noteq> [] \<Longrightarrow> q \<noteq> [] \<Longrightarrow> (last p, hd q) \<in> set (zip (p @ q) (tl (p @ q)))"
proof (induction p)
  case Nil
  then show ?case by simp
next
  case (Cons x p)
  show ?case
  proof (cases "p = []")
    case True
    with Cons.prems show ?thesis
      by (cases q) simp_all
  next
    case False
    with Cons have "(last p, hd q) \<in> set (zip (p @ q) (tl (p @ q)))"
      by simp
    then have "(last p, hd q) \<in> set (zip (x # p @ q) (p @ q))"
      by (cases "p @ q") (auto)
    with False show ?thesis
      by simp
  qed
qed

lemma sub_through_region:
  assumes "b \<noteq> []"
  shows "no_start b (word_before prev) R \<Longrightarrow>
     sub_from (lookaround_pattern b) repl prev (R @ post)
       = R @ sub_from (lookaround_pattern b) repl (last_opt prev R) post"
proof (induction R arbitrary: prev)
  case Nil
  then show ?case by simp
next
  case (Cons c R)
  from Cons.prems have "word_before prev \<or> c \<noteq> hd b"
    by simp
  then have "word_before prev \<or> (\<forall>rest. c # R @ post \<noteq> b @ rest)"
    using assms by (cases b) auto
  then have "match_here (lookaround_pattern b) prev (c # R @ post) = None"
    by (rule lookaround_no_match)
  moreover have "no_start b (word_before (Some c)) R"
    using Cons.prems by simp
  ultimately show ?case
    using Cons.IH [of "Some c"] by (simp add: sub_from_no_match)
qed

lemma sub_keeps_standalone:
  assumes b: "b \<noteq> []" "is_word (hd b)"
    and R: "R \<noteq> []" "is_word (hd R)"
    and ns: "no_start b False R"
    and br: "list_all (\<lambda>(x, y). is_word x \<or> y \<noteq> hd R) (zip b (tl b))"
    and s: "standalone R text"
  shows "standalone R (re_sub (lookaround_pattern b) repl text)"
proof -
  from s obtain pre post where t: "text = pre @ R @ post"
    and bd: "\<not> word_before (last_opt None pre)" "\<not> word_ahead post"
    unfolding standalone_from_None standalone_from_def by blast
  have pl: "pre \<noteq> [] \<longrightarrow> \<not> is_word (last pre)"
    using bd(1) unfolding word_before_last_opt by blast
  have H: "\<forall>p1 p2 rest. pre = p1 @ p2 \<and> p2 \<noteq> [] \<and> p2 @ (R @ post) = b @ rest
            \<and> \<not> word_before (last_opt None p1) \<and> \<not> word_ahead rest \<longrightarrow> length b < length p2"
  proof (intro allI impI)
    fix p1 p2 rest
    assume h: "pre = p1 @ p2 \<and> p2 \<noteq> [] \<and> p2 @ (R @ post) = b @ rest
            \<and> \<not> word_before (last_opt None p1) \<and> \<not> word_ahead rest"
    then have lastp: "\<not> is_word (last p2)"
      using pl by simp
    show "length b < length p2"
    proof (rule ccontr)
      assume "\<not> length b < length p2"
      then consider "length b = length p2" | "length p2 < length b"
        by linarith
      then show False
      proof cases
        case 1
        with h have "rest = R @ post"
          by simp
        with h R show False
          by (cases R) simp_all
      next
        case 2
        with h obtain b' where b': "b = p2 @ b'" "b' \<noteq> []"
          by (metis append_eq_append_conv_if append_take_drop_id drop_eq_Nil leD)
        with h have "b' @ rest = R @ post"
          by simp
        with b'(2) R(1) have "hd b' = hd R"
          by (metis hd_append2)
        moreover have "(last p2, hd b') \<in> set (zip b (tl b))"
          using zip_tl_adjacent [of p2 b'] h b' by simp
        ultimately show False
          using br lastp by (auto simp: list_all_iff)
      qed
    qed
  qed
  from scan_prefix [OF b(1) H, of repl] obtain pre2 where
    p: "sub_from (lookaround_pattern b) repl None (pre @ R @ post)
          = pre2 @ sub_from (lookaround_pattern b) repl (last_opt None pre) (R @ post)"
      "pre = [] \<longrightarrow> pre2 = []" "pre \<noteq> [] \<longrightarrow> pre2 \<noteq> [] \<and> last pre2 = last pre"
    by blast
  have "no_start b (word_before (last_opt None pre)) R"
    using ns bd(1) by simp
  then have "sub_from (lookaround_pattern b) repl (last_opt None pre) (R @ post)
      = R @ sub_from (lookaround_pattern b) repl (last_opt (last_opt None pre) R) post"
    by (rule sub_through_region [OF b(1)])
  with p(1) t have r: "re_sub (lookaround_pattern b) repl text
      = pre2 @ R @ sub_from (lookaround_pattern b) repl (last_opt (last_opt None pre) R) post"
    by (simp add: re_sub_def)
  have "\<not> word_ahead (sub_from (lookaround_pattern b) repl (last_opt (last_opt None pre) R) post)"
    by (rule sub_from_nonword_head [OF b bd(2)])
  moreover have "\<not> word_before (last_opt None pre2)"
    using p(2,3) pl by (cases "pre = []") (simp_all add: last_opt_def)
  ultimately show ?thesis
    unfolding standalone_from_None using r by (intro standalone_fromI [of _ pre2]) simp_all
qed

subsection \<open>Taxonomy entries that end in a non-word character\<close>

text \<open>
  \<^verbatim>\<open>\b\<close> holds between a word character and a character that is none. After the last
  \<open>+\<close> of \<^verbatim>\<open>c++\<close> it therefore asks for a word character to follow, where the lookarounds
  of \<^verbatim>\<open>lambda_handler.py\<close> ask for none.
\<close>

lemma normalize_cpp_developer: "normalize_text ''C++ developer'' = ''c++ developer''"
  by (simp add: normalize_text_def replace_char_def lower_char_def char_of_def bit_Suc_0_iff)

lemma aliases_cpp_developer: "apply_aliases ''c++ developer'' = ''c++ developer''"
  by (simp add: apply_aliases_def SKILL_ALIASES_def re_sub_def sub_from.simps
      lookaround_pattern_def re_escape_def is_word_ascii)

lemma split_ws_cpp: "split_ws ''c++'' = [''c++'']"
  by (simp add: split_ws_def is_space_ascii)

lemma cpp_in_taxonomy: "''c++'' \<in> set SKILL_TAXONOMY"
  by (simp add: SKILL_TAXONOMY_def)

lemma cpp_occurs: "phrase_occurs ''c++'' ''c++ developer''"
  unfolding phrase_occurs_def split_ws_cpp
  by (rule exI [of _ "[]"], rule exI [of _ "''c++''"], rule exI [of _ "'' developer''"])
     (simp add: spaced.one is_word_ascii)

lemma cpp_not_found: "\<not> re_search (boundary_pattern [''c++'']) ''c++ developer''"
  by (simp add: boundary_pattern_def re_escape_def re_search_def is_word_ascii)

text \<open>
  Claim C2. The claim puts a taxonomy phrase in the output exactly when its tokens occur in
  the normalized and alias-substituted text as a whole word. For the phrases that begin and
  end with a word character this is \<open>extract_resume_skills_phrase_iff\<close>. The taxonomy also
  holds \<^verbatim>\<open>c++\<close>: in \<^verbatim>\<open>C++ developer\<close> the text after normalization and alias substitution
  is \<^verbatim>\<open>c++ developer\<close>, the phrase occurs there as a whole word, at the start and followed
  by a blank, and it is not in the output.
\<close>
theorem boundary_pattern_misses_cpp:
  "''c++'' \<in> set SKILL_TAXONOMY
   \<and> apply_aliases (normalize_text ''C++ developer'') = ''c++ developer''
   \<and> phrase_occurs ''c++'' ''c++ developer''
   \<and> ''c++'' \<notin> set (extract_resume_skills ''C++ developer'')"
  by (simp add: cpp_in_taxonomy normalize_cpp_developer aliases_cpp_developer cpp_occurs
      extract_resume_skills_mem split_ws_cpp cpp_not_found)

lemma normalize_cpp: "normalize_text ''c++'' = ''c++''"
  by (simp add: normalize_text_def replace_char_def lower_char_def char_of_def bit_Suc_0_iff)

lemma aliases_cpp: "apply_aliases ''c++'' = ''c++''"
  by (simp add: apply_aliases_def SKILL_ALIASES_def re_sub_def sub_from.simps
      lookaround_pattern_def re_escape_def is_word_ascii)

lemma boundary_filter_cpp:
  "filter (\<lambda>skill. re_search (boundary_pattern (split_ws skill)) ''c++'') SKILL_TAXONOMY = [''c'']"
  by (simp add: SKILL_TAXONOMY_def split_ws_def boundary_pattern_def re_escape_def re_search_def
      is_word_ascii is_space_ascii)

lemma lookaround_filter_cpp:
  "filter (\<lambda>skill. re_search (lookaround_pattern skill) ''c++'') SKILL_TAXONOMY = [''c'', ''c++'']"
  by (simp add: SKILL_TAXONOMY_def lookaround_pattern_def re_escape_def re_search_def is_word_ascii)

lemma normalize_two_blanks: "normalize_text ''machine  learning'' = ''machine  learning''"
  by (simp add: normalize_text_def replace_char_def lower_char_def char_of_def bit_Suc_0_iff)

lemma aliases_two_blanks: "apply_aliases ''machine  learning'' = ''machine  learning''"
  by (simp add: apply_aliases_def SKILL_ALIASES_def re_sub_def sub_from.simps
      lookaround_pattern_def re_escape_def is_word_ascii)

lemma machine_learning_in_taxonomy: "''machine learning'' \<in> set SKILL_TAXONOMY"
  by (simp add: SKILL_TAXONOMY_def)

lemma split_ws_machine_learning: "split_ws ''machine learning'' = [''machine'', ''learning'']"
  by (simp add: split_ws_def is_space_ascii)

lemma boundary_two_blanks:
  "re_search (boundary_pattern [''machine'', ''learning'']) ''machine  learning''"
  by (simp add: boundary_pattern_def re_escape_def re_search_def is_word_ascii is_space_ascii)

lemma lookaround_two_blanks:
  "\<not> re_search (lookaround_pattern ''machine learning'') ''machine  learning''"
  by (simp add: lookaround_pattern_def re_escape_def re_search_def is_word_ascii)

text \<open>
  Claim C10. The claim makes the two extractors the same function, also on the entries that
  end in a non-word character. On the text \<^verbatim>\<open>c++\<close> they differ: \<^verbatim>\<open>extract_resume_skills\<close>
  returns \<^verbatim>\<open>["c"]\<close> and \<^verbatim>\<open>extract_skills_from_text\<close> returns \<^verbatim>\<open>["c", "c++"]\<close>. They differ
  a second way: between the tokens of a phrase the first accepts any run of whitespace and
  the second one blank only, so for \<^verbatim>\<open>machine\<close> and \<^verbatim>\<open>learning\<close> two blanks apart the first
  finds \<^verbatim>\<open>machine learning\<close> and the second does not.
\<close>
theorem extractors_differ:
  "extract_resume_skills ''c++'' = [''c'']
   \<and> extract_skills_from_text ''c++'' = [''c'', ''c++'']
   \<and> ''machine learning'' \<in> set (extract_resume_skills ''machine  learning'')
   \<and> ''machine learning'' \<notin> set (extract_skills_from_text ''machine  learning'')"
  by (simp add: extract_resume_skills_eq extract_skills_from_text_eq normalize_cpp aliases_cpp
      boundary_filter_cpp lookaround_filter_cpp less_char_def machine_learning_in_taxonomy
      normalize_two_blanks aliases_two_blanks split_ws_machine_learning boundary_two_blanks
      lookaround_two_blanks)

subsection \<open>The aliases \<^verbatim>\<open>ml\<close> and \<^verbatim>\<open>js\<close>\<close>

lemma standaloneI:
  "text = pre @ w @ post \<Longrightarrow> pre = [] \<or> \<not> is_word (last pre) \<Longrightarrow> post = [] \<or> \<not> is_word (hd post)
     \<Longrightarrow> standalone w text"
  unfolding standalone_def by blast

lemma standaloneE:
  assumes "standalone w text"
  obtains pre post where "text = pre @ w @ post" "pre = [] \<or> \<not> is_word (last pre)"
    "post = [] \<or> \<not> is_word (hd post)"
  using assms unfolding standalone_def by blast

lemma lower_char_ML: "lower_char CHR ''M'' = CHR ''m''" "lower_char CHR ''L'' = CHR ''l''"
  by (simp_all add: lower_char_def char_of_def bit_Suc_0_iff)

lemma normalize_text_map: "normalize_text text = map normalize_char text"
  unfolding normalize_text_def replace_char_def Let_def map_map comp_def
  by (rule map_cong [OF refl]) (simp only: normalize_char_def Let_def)

lemma space_nonword: "\<not> is_word CHR '' ''"
  by (simp add: is_word_def)

lemma normalize_char_nonword:
  assumes "\<not> is_word c"
  shows "\<not> is_word (normalize_char c)"
proof -
  have l: "lower_char c = c"
    using assms by (rule lower_char_nonword)
  show ?thesis
  proof (cases "c = CHR ''-'' \<or> c = CHR ''_''")
    case True
    then have "normalize_char c = CHR '' ''"
      unfolding normalize_char_def Let_def l by auto
    then show ?thesis
      by (simp only: space_nonword not_False_eq_True)
  next
    case False
    then have "normalize_char c = c"
      unfolding normalize_char_def Let_def l by simp
    with assms show ?thesis
      by simp
  qed
qed

lemma normalize_ML: "map normalize_char ''ML'' = ''ml''"
proof -
  have "normalize_char CHR ''M'' = CHR ''m''" "normalize_char CHR ''L'' = CHR ''l''"
    unfolding normalize_char_def Let_def lower_char_ML by simp_all
  then show ?thesis
    by simp
qed

lemma normalize_keeps_ML:
  assumes "standalone ''ML'' text"
  shows "standalone ''ml'' (normalize_text text)"
proof -
  from assms obtain pre post where t: "text = pre @ ''ML'' @ post"
    and b: "pre = [] \<or> \<not> is_word (last pre)" "post = [] \<or> \<not> is_word (hd post)"
    by (rule standaloneE)
  have "normalize_text text = map normalize_char (pre @ ''ML'' @ post)"
    by (simp only: normalize_text_map t)
  also have "\<dots> = map normalize_char pre @ map normalize_char ''ML'' @ map normalize_char post"
    by (simp only: map_append)
  finally have e: "normalize_text text = map normalize_char pre @ ''ml'' @ map normalize_char post"
    by (simp only: normalize_ML)
  have p: "map normalize_char pre = [] \<or> \<not> is_word (last (map normalize_char pre))"
  proof (cases "pre = []")
    case True
    then show ?thesis by simp
  next
    case False
    with b(1) have "\<not> is_word (last pre)"
      by simp
    then have "\<not> is_word (normalize_char (last pre))"
      by (rule normalize_char_nonword)
    with False show ?thesis
      by (simp add: last_map)
  qed
  have q: "map normalize_char post = [] \<or> \<not> is_word (hd (map normalize_char post))"
  proof (cases "post = []")
    case True
    then show ?thesis by simp
  next
    case False
    with b(2) have "\<not> is_word (hd post)"
      by simp
    then have "\<not> is_word (normalize_char (hd post))"
      by (rule normalize_char_nonword)
    with False show ?thesis
      by (simp add: hd_map)
  qed
  show ?thesis
    by (rule standaloneI [OF e p q])
qed

lemma other_aliases_keep:
  "list_all (\<lambda>(b, c). b \<noteq> [] \<and> is_word (hd b) \<and> no_start b False ''machine learning''
       \<and> list_all (\<lambda>(x, y). is_word x \<or> y \<noteq> hd ''machine learning'') (zip b (tl b)))
     (tl SKILL_ALIASES)"
  by (simp add: SKILL_ALIASES_def is_word_ascii)

lemma apply_aliases_first:
  "apply_aliases text =
     fold (\<lambda>(alias, canonical) text. re_sub (lookaround_pattern alias) canonical text)
       (tl SKILL_ALIASES) (re_sub (lookaround_pattern ''ml'') ''machine learning'' text)"
  by (simp add: apply_aliases_def SKILL_ALIASES_def)

lemma fold_keeps_standalone:
  assumes "list_all (\<lambda>(b, c). b \<noteq> [] \<and> is_word (hd b) \<and> no_start b False R
       \<and> list_all (\<lambda>(x, y). is_word x \<or> y \<noteq> hd R) (zip b (tl b))) xs"
    and "R \<noteq> []" "is_word (hd R)"
  shows "standalone R t \<Longrightarrow>
     standalone R (fold (\<lambda>(alias, canonical) text. re_sub (lookaround_pattern alias) canonical text) xs t)"
  using assms(1)
proof (induction xs arbitrary: t)
  case Nil
  then show ?case by simp
next
  case (Cons x xs)
  obtain b c where x: "x = (b, c)"
    by (cases x)
  with Cons.prems have "standalone R (re_sub (lookaround_pattern b) c t)"
    by (intro sub_keeps_standalone assms(2,3)) simp_all
  with Cons x show ?case
    by simp
qed

lemma apply_aliases_ml:
  assumes "standalone ''ml'' text"
  shows "standalone ''machine learning'' (apply_aliases text)"
proof -
  have "standalone ''machine learning'' (re_sub (lookaround_pattern ''ml'') ''machine learning'' text)"
    using assms by (intro sub_replaces_standalone) (simp_all add: is_word_ascii)
  then show ?thesis
    unfolding apply_aliases_first
    by (intro fold_keeps_standalone other_aliases_keep) (simp_all add: is_word_ascii)
qed

lemma standalone_phrase_occurs:
  "standalone ''machine learning'' t \<Longrightarrow> phrase_occurs ''machine learning'' t"
proof -
  have "spaced [''machine'', ''learning''] (''machine'' @ '' '' @ ''learning'')"
    by (intro spaced.more spaced.one) (simp_all add: is_space_ascii)
  then have "spaced (split_ws ''machine learning'') ''machine learning''"
    by (simp add: split_ws_machine_learning)
  then show "standalone ''machine learning'' t \<Longrightarrow> phrase_occurs ''machine learning'' t"
    unfolding standalone_def phrase_occurs_def by blast
qed

lemma taxonomy_facts:
  "''machine learning'' \<in> set SKILL_TAXONOMY" "''ml'' \<notin> set SKILL_TAXONOMY"
  "''javascript'' \<in> set SKILL_TAXONOMY"
  by (simp_all add: SKILL_TAXONOMY_def)

lemma ML_extracted:
  assumes "standalone ''ML'' text"
  shows "''machine learning'' \<in> set (extract_resume_skills text)"
proof -
  have "standalone ''machine learning'' (apply_aliases (normalize_text text))"
    using assms by (intro apply_aliases_ml normalize_keeps_ML)
  then have "phrase_occurs ''machine learning'' (apply_aliases (normalize_text text))"
    by (rule standalone_phrase_occurs)
  then show ?thesis
    by (subst extract_resume_skills_phrase_iff) (simp_all add: taxonomy_facts is_word_ascii)
qed

lemma enjoy_normalized: "normalize_text ''I enjoy coding'' = ''i enjoy coding''"
  by (simp add: normalize_text_def replace_char_def lower_char_def char_of_def bit_Suc_0_iff)

lemma enjoy_aliases: "apply_aliases ''i enjoy coding'' = ''i enjoy coding''"
  by (simp add: apply_aliases_def SKILL_ALIASES_def re_sub_def sub_from.simps
      lookaround_pattern_def re_escape_def is_word_ascii)

lemma enjoy_no_javascript:
  "\<not> re_search (boundary_pattern (split_ws ''javascript'')) ''i enjoy coding''"
  by (simp add: split_ws_def boundary_pattern_def re_escape_def re_search_def
      is_word_ascii is_space_ascii)

lemma re_search_lookaround_iff:
  "re_search (lookaround_pattern a) text \<longleftrightarrow> standalone a text"
proof -
  have "re_search (lookaround_pattern a) text
      \<longleftrightarrow> (\<exists>pre rest. text = pre @ rest \<and> (\<exists>q r. match_here (lookaround_pattern a) (last_opt None pre) rest = Some (q, r)))"
    unfolding re_search_def search_from_iff by auto
  also have "\<dots> \<longleftrightarrow> (\<exists>pre post. text = pre @ a @ post
        \<and> \<not> word_before (last_opt None pre) \<and> \<not> word_ahead post)"
    unfolding lookaround_match_iff by auto
  finally show ?thesis
    unfolding standalone_def word_before_last_opt word_ahead_iff .
qed

lemma nodejs_normalized: "normalize_text ''nodejs'' = ''nodejs''"
  by (simp add: normalize_text_def replace_char_def lower_char_def char_of_def bit_Suc_0_iff)

lemma nodejs_aliases: "apply_aliases ''nodejs'' = ''nodejs''"
  by (simp add: apply_aliases_def SKILL_ALIASES_def re_sub_def sub_from.simps
      lookaround_pattern_def re_escape_def is_word_ascii)

lemma nodejs_no_javascript:
  "\<not> re_search (boundary_pattern (split_ws ''javascript'')) ''nodejs''"
  by (simp add: split_ws_def boundary_pattern_def re_escape_def re_search_def
      is_word_ascii is_space_ascii)

lemma nodejs_inside: "\<not> standalone ''js'' ''nodejs''"
  unfolding re_search_lookaround_iff [symmetric]
  by (simp add: lookaround_pattern_def re_escape_def re_search_def is_word_ascii)

text \<open>
  Claim C4. Alias substitution leaves a text unchanged in which the alias has no occurrence
  that is delimited on both sides, not preceded and not followed by a word character. For
  every text in which \<^verbatim>\<open>ML\<close> stands as a word of its own, the output of
  \<^verbatim>\<open>extract_resume_skills\<close> contains \<^verbatim>\<open>machine learning\<close>; the output never contains \<^verbatim>\<open>ml\<close>.
  In \<^verbatim>\<open>I enjoy coding\<close> and in \<^verbatim>\<open>nodejs\<close>, where \<^verbatim>\<open>js\<close> occurs inside a longer word only,
  no alias is substituted and \<^verbatim>\<open>javascript\<close> is not in the output.
\<close>
theorem alias_only_standalone:
  "(\<forall>a repl t. a \<noteq> [] \<and> \<not> standalone a t \<longrightarrow> re_sub (lookaround_pattern a) repl t = t)
   \<and> (standalone ''ML'' text \<longrightarrow> ''machine learning'' \<in> set (extract_resume_skills text))
   \<and> ''ml'' \<notin> set (extract_resume_skills text)
   \<and> \<not> standalone ''js'' (normalize_text ''I enjoy coding'')
   \<and> apply_aliases (normalize_text ''I enjoy coding'') = ''i enjoy coding''
   \<and> ''javascript'' \<notin> set (extract_resume_skills ''I enjoy coding'')
   \<and> \<not> standalone ''js'' (normalize_text ''nodejs'')
   \<and> apply_aliases (normalize_text ''nodejs'') = ''nodejs''
   \<and> ''javascript'' \<notin> set (extract_resume_skills ''nodejs'')"
proof -
  have "\<not> set ''js'' \<subseteq> set ''i enjoy coding''"
    by simp
  then have "\<not> standalone ''js'' (normalize_text ''I enjoy coding'')"
    unfolding enjoy_normalized using standalone_subset by blast
  moreover have "''javascript'' \<notin> set (extract_resume_skills ''I enjoy coding'')"
    by (simp add: extract_resume_skills_mem enjoy_normalized enjoy_aliases enjoy_no_javascript)
  moreover have "''javascript'' \<notin> set (extract_resume_skills ''nodejs'')"
    by (simp add: extract_resume_skills_mem nodejs_normalized nodejs_aliases nodejs_no_javascript)
  moreover have "''ml'' \<notin> set (extract_resume_skills text)"
    by (simp add: extract_resume_skills_mem taxonomy_facts)
  ultimately show ?thesis
    using ML_extracted [of "text"] re_sub_unchanged nodejs_inside
    by (simp add: enjoy_normalized enjoy_aliases nodejs_normalized nodejs_aliases)
qed

theorem alias_only_standalone_witness:
  "standalone ''ML'' ''ML/AI (JS)''
   \<and> ''machine learning'' \<in> set (extract_resume_skills ''ML/AI (JS)'')
   \<and> \<not> standalone ''js'' ''nodejs''
   \<and> re_sub (lookaround_pattern ''js'') ''javascript'' ''nodejs'' = ''nodejs''"
proof -
  have s: "standalone ''ML'' ''ML/AI (JS)''"
    by (rule standaloneI [of _ "[]" _ "''/AI (JS)''"]) (simp_all add: is_word_ascii)
  have n: "''js'' \<noteq> [] \<and> \<not> standalone ''js'' ''nodejs''"
    using nodejs_inside by simp
  from alias_only_standalone [of "''ML/AI (JS)''"]
  have "\<forall>a repl t. a \<noteq> [] \<and> \<not> standalone a t \<longrightarrow> re_sub (lookaround_pattern a) repl t = t"
    and "standalone ''ML'' ''ML/AI (JS)'' \<longrightarrow> ''machine learning'' \<in> set (extract_resume_skills ''ML/AI (JS)'')"
    by blast+
  with s n show ?thesis
    by blast
qed

end
